theory Spec2Isabelle
  imports Complex_Main "HOL-Library.Char_ord" "HOL-Library.List_Lexorder" "HOL-Library.Multiset"
    "HOL-Library.Log_Nat"
begin

section \<open>Tables\<close>

text \<open>
  The notebook threads one pandas DataFrame through its stages.  A cell read from the
  CSV file is missing, a text or a number; a frame is its column names together with
  its rows, every row carrying its index label.  Python strings are compared by code
  point, which is the order of \<^typ>\<open>string\<close> under the character order and the
  lexicographic order on lists.
\<close>

datatype cell = NaN | Str string | Num int

datatype error = KeyError string | ValueError | TypeError | AttributeError | IndexError

record dataframe =
  columns :: "string list"
  rows :: "(nat \<times> cell list) list"

definition index :: "dataframe \<Rightarrow> nat list" where
  "index df = map fst (rows df)"

definition cells :: "dataframe \<Rightarrow> cell list list" where
  "cells df = map snd (rows df)"

text \<open>
  A frame that pandas builds is rectangular and, as \<open>read_csv\<close> delivers it, has
  distinct column names.  The operations below are those of pandas on such frames;
  what is proved about the contents of a column assumes the frame is one.
\<close>

definition wf_frame :: "dataframe \<Rightarrow> bool" where
  "wf_frame df \<longleftrightarrow>
     distinct (columns df) \<and> list_all (\<lambda>r. length (snd r) = length (columns df)) (rows df)"

fun is_num :: "cell \<Rightarrow> bool" where
  "is_num (Num n) = True"
| "is_num c = False"

fun is_text :: "cell \<Rightarrow> bool" where
  "is_text (Str s) = True"
| "is_text c = False"

subsection \<open>The pandas operations the notebook calls\<close>

definition has_null :: "nat \<times> cell list \<Rightarrow> bool" where
  \<comment> \<open>one entry of \<open>data.isnull().any(axis=1)\<close>\<close>
  "has_null r = (NaN \<in> set (snd r))"

definition dropna :: "dataframe \<Rightarrow> dataframe" where
  "dropna df = df\<lparr>rows := filter (\<lambda>r. \<not> has_null r) (rows df)\<rparr>"

fun duplicated_from :: "cell list list \<Rightarrow> cell list list \<Rightarrow> bool list" where
  \<comment> \<open>\<open>duplicated()\<close> with \<open>keep='first'\<close>: a row is marked when an earlier row has the same cells\<close>
  "duplicated_from seen [] = []"
| "duplicated_from seen (r # rs) = (r \<in> set seen) # duplicated_from (r # seen) rs"

definition duplicated :: "dataframe \<Rightarrow> bool list" where
  "duplicated df = duplicated_from [] (cells df)"

fun unmarked :: "bool list \<Rightarrow> 'a list \<Rightarrow> 'a list" where
  \<comment> \<open>selection by the negated mask, \<open>data[~mask]\<close>\<close>
  "unmarked (m # ms) (x # xs) = (if m then unmarked ms xs else x # unmarked ms xs)"
| "unmarked _ _ = []"

definition drop_duplicates :: "dataframe \<Rightarrow> dataframe" where
  "drop_duplicates df = df\<lparr>rows := unmarked (duplicated df) (rows df)\<rparr>"

fun position :: "'a list \<Rightarrow> 'a \<Rightarrow> nat" where
  "position [] x = 0"
| "position (y # ys) x = (if x = y then 0 else Suc (position ys x))"

definition column_pos :: "dataframe \<Rightarrow> string \<Rightarrow> nat option" where
  "column_pos df name =
     (if name \<in> set (columns df) then Some (position (columns df) name) else None)"

definition getitem :: "dataframe \<Rightarrow> string \<Rightarrow> error + cell list" where
  \<comment> \<open>\<open>data[name]\<close>\<close>
  "getitem df name =
     (case column_pos df name of
        None \<Rightarrow> Inl (KeyError name)
      | Some j \<Rightarrow> Inr (map (\<lambda>r. snd r ! j) (rows df)))"

definition setitem :: "dataframe \<Rightarrow> string \<Rightarrow> cell list \<Rightarrow> dataframe" where
  \<comment> \<open>\<open>data[name] = values\<close>, the values assigned by position; a new name adds a column\<close>
  "setitem df name vs =
     (case column_pos df name of
        Some j \<Rightarrow> df\<lparr>rows := map2 (\<lambda>r v. (fst r, (snd r)[j := v])) (rows df) vs\<rparr>
      | None \<Rightarrow> df\<lparr>columns := columns df @ [name],
                    rows := map2 (\<lambda>r v. (fst r, snd r @ [v])) (rows df) vs\<rparr>)"

definition drop_column :: "string \<Rightarrow> dataframe \<Rightarrow> error + dataframe" where
  \<comment> \<open>\<open>data.drop([name], axis=1)\<close>\<close>
  "drop_column name df =
     (case column_pos df name of
        None \<Rightarrow> Inl (KeyError name)
      | Some j \<Rightarrow>
          Inr (df\<lparr>columns := take j (columns df) @ drop (Suc j) (columns df),
                  rows := map (\<lambda>r. (fst r, take j (snd r) @ drop (Suc j) (snd r))) (rows df)\<rparr>))"

definition reset_index :: "dataframe \<Rightarrow> dataframe" where
  \<comment> \<open>\<open>reset_index(drop=True)\<close>\<close>
  "reset_index df = df\<lparr>rows := zip [0 ..< length (rows df)] (cells df)\<rparr>"

subsection \<open>Label encoding\<close>

text \<open>
  \<open>LabelEncoder.fit_transform\<close> collects the classes of a column as its sorted distinct
  values and replaces every value by its position among them.  It takes a column that
  is uniformly text or uniformly numeric and raises a type error on a mixed one.
\<close>

definition classes :: "'a::linorder list \<Rightarrow> 'a list" where
  "classes xs = remdups (sort xs)"

definition encode :: "'a::linorder list \<Rightarrow> cell list" where
  "encode xs = map (\<lambda>x. Num (int (position (classes xs) x))) xs"

fun texts :: "cell list \<Rightarrow> string list option" where
  "texts [] = Some []"
| "texts (Str s # cs) = map_option ((#) s) (texts cs)"
| "texts (_ # cs) = None"

fun numbers :: "cell list \<Rightarrow> int list option" where
  "numbers [] = Some []"
| "numbers (Num n # cs) = map_option ((#) n) (numbers cs)"
| "numbers (_ # cs) = None"

definition fit_transform :: "cell list \<Rightarrow> error + cell list" where
  "fit_transform cs =
     (case texts cs of
        Some ss \<Rightarrow> Inr (encode ss)
      | None \<Rightarrow> (case numbers cs of Some ns \<Rightarrow> Inr (encode ns) | None \<Rightarrow> Inl TypeError))"

section \<open>The cleaning stage\<close>

text \<open>
  Every statement of \<open>data_cleaning_encoding\<close> works on the frame it was given, in
  place.  A statement either raises, leaving the frame as it found it, or yields the
  frame's next state; a raise ends the function with the frame as mutated so far.
  The function's value is the error it raised, if any, and the state in which it leaves
  the frame.  The two counts it prints are not part of the model.
\<close>

definition run_stmt ::
  "error option \<times> dataframe \<Rightarrow> (dataframe \<Rightarrow> error + dataframe) \<Rightarrow> error option \<times> dataframe" where
  "run_stmt st f =
     (case st of
        (Some e, df) \<Rightarrow> (Some e, df)
      | (None, df) \<Rightarrow> (case f df of Inl e \<Rightarrow> (Some e, df) | Inr df' \<Rightarrow> (None, df')))"

definition remove_null_rows :: "dataframe \<Rightarrow> error + dataframe" where
  \<comment> \<open>\<open>if data.isnull().any(axis=1).any(): data.dropna(inplace=True)\<close>\<close>
  "remove_null_rows df = Inr (if list_ex has_null (rows df) then dropna df else df)"

definition remove_duplicate_rows :: "dataframe \<Rightarrow> error + dataframe" where
  \<comment> \<open>\<open>if data.duplicated().any(): data.drop_duplicates(inplace=True)\<close>\<close>
  "remove_duplicate_rows df = Inr (if True \<in> set (duplicated df) then drop_duplicates df else df)"

definition encode_column :: "string \<Rightarrow> dataframe \<Rightarrow> error + dataframe" where
  \<comment> \<open>\<open>data[name] = le.fit_transform(data[name])\<close>\<close>
  "encode_column name df =
     (case getitem df name of
        Inl e \<Rightarrow> Inl e
      | Inr col \<Rightarrow> (case fit_transform col of Inl e \<Rightarrow> Inl e | Inr codes \<Rightarrow> Inr (setitem df name codes)))"

definition data_cleaning_encoding :: "dataframe \<Rightarrow> error option \<times> dataframe" where
  "data_cleaning_encoding data =
     foldl run_stmt (None, data)
       [remove_null_rows,
        remove_duplicate_rows,
        encode_column ''AUTHOR'',
        encode_column ''VIDEO_NAME'',
        drop_column ''DATE'',
        drop_column ''COMMENT_ID'',
        Inr \<circ> reset_index]"

subsection \<open>Notions used to state the properties\<close>

definition col_at :: "nat \<Rightarrow> dataframe \<Rightarrow> cell list" where
  "col_at j df = map (\<lambda>r. snd r ! j) (rows df)"

definition rank :: "'a::linorder list \<Rightarrow> 'a \<Rightarrow> nat" where
  \<comment> \<open>how many distinct values of the column lie strictly below \<open>x\<close>\<close>
  "rank xs x = card {y \<in> set xs. y < x}"

definition first_seen_codes :: "'a list \<Rightarrow> cell list" where
  \<comment> \<open>for comparison, the coding by order of first appearance: the first distinct value
     scanning top to bottom gets 0, the next new one 1, and so on\<close>
  "first_seen_codes xs = map (\<lambda>x. Num (int (position (rev (remdups (rev xs))) x))) xs"

section \<open>The vectorizing stage\<close>

text \<open>
  \<open>vectorizing\<close> reads the \<open>CONTENT\<close> column, lets \<open>CountVectorizer\<close> with its default
  settings count the words, resets the index of the frame it was given, in place, and
  returns a new frame: the given columns followed by one column per vocabulary term.
  The library's analyzer, which turns a text into its tokens (by default: lower case,
  then every run of two or more word characters, both in Unicode's sense), is a
  parameter of the model.
\<close>

fun documents :: "bool \<Rightarrow> cell list \<Rightarrow> error + string list" where
  \<comment> \<open>the analyzer takes texts only.  A number has no \<open>lower\<close>.  A missing value in a
     column that holds texts is refused as a document; in a column without texts it
     arrives as an ordinary float, which has no \<open>lower\<close> either.  The flag says whether
     the column holds a text.\<close>
  "documents holds_text [] = Inr []"
| "documents holds_text (Str s # cs) =
     (case documents holds_text cs of Inl e \<Rightarrow> Inl e | Inr ds \<Rightarrow> Inr (s # ds))"
| "documents holds_text (Num n # cs) = Inl AttributeError"
| "documents holds_text (NaN # cs) = Inl (if holds_text then ValueError else AttributeError)"

definition count_vectorizer_fit_transform ::
  "(string \<Rightarrow> string list) \<Rightarrow> cell list \<Rightarrow> error + string list \<times> nat list list" where
  \<comment> \<open>\<open>vectorizer.fit_transform(...).toarray()\<close> with \<open>vectorizer.get_feature_names_out()\<close>:
     the vocabulary is the sorted distinct tokens of all documents, an empty vocabulary
     is an error, and a document's row counts each term's occurrences in it\<close>
  "count_vectorizer_fit_transform analyzer raw_documents =
     (case documents (list_ex is_text raw_documents) raw_documents of
        Inl e \<Rightarrow> Inl e
      | Inr docs \<Rightarrow>
          let vocabulary = classes (concat (map analyzer docs))
          in if vocabulary = [] then Inl ValueError
             else Inr (vocabulary,
                       map (\<lambda>doc. map (\<lambda>term. count_list (analyzer doc) term) vocabulary) docs))"

definition DataFrame :: "nat list list \<Rightarrow> string list \<Rightarrow> dataframe" where
  \<comment> \<open>\<open>pd.DataFrame(array, columns=names)\<close>\<close>
  "DataFrame array names =
     \<lparr>columns = names, rows = zip [0 ..< length array] (map (map (\<lambda>n. Num (int n))) array)\<rparr>"

definition concat_columns :: "dataframe \<Rightarrow> dataframe \<Rightarrow> dataframe" where
  \<comment> \<open>\<open>pd.concat([a, b], axis=1)\<close> of two frames that carry the same index, as the two
     frames of \<open>vectorizing\<close> do after their indices are reset: rows pair by position\<close>
  "concat_columns a b =
     \<lparr>columns = columns a @ columns b,
      rows = map2 (\<lambda>ra rb. (fst ra, snd ra @ snd rb)) (rows a) (rows b)\<rparr>"

definition vectorizing ::
  "(string \<Rightarrow> string list) \<Rightarrow> dataframe \<Rightarrow> (error + dataframe) \<times> dataframe" where
  \<comment> \<open>the result, and the state in which the call leaves its argument\<close>
  "vectorizing analyzer cleaned_data =
     (case getitem cleaned_data ''CONTENT'' of
        Inl e \<Rightarrow> (Inl e, cleaned_data)
      | Inr feature_to_vectorize \<Rightarrow>
          (case count_vectorizer_fit_transform analyzer feature_to_vectorize of
             Inl e \<Rightarrow> (Inl e, cleaned_data)
           | Inr (names, array) \<Rightarrow>
               let vectorized_df = reset_index (DataFrame array names);
                   cleaned_data' = reset_index cleaned_data
               in (Inr (concat_columns cleaned_data' vectorized_df), cleaned_data')))"

section \<open>The splitting stage\<close>

text \<open>
  \<open>train_test_splitting\<close> takes the feature columns and the label column out of the
  table and hands them to scikit-learn's \<open>train_test_split\<close> with the seed 42.  The
  library's pseudorandom generator is a parameter of the model: how a seed makes a
  generator state, and how a state yields a permutation of \<open>0..n-1\<close> and the next state.
  The process-wide generator state is threaded through, so that what a call reads of
  it and what it leaves of it is visible.  A held-out size is a fraction or an absolute
  count.  The fraction is a float in the notebook: \<open>Fraction f\<close> stands for the float
  nearest to the rational \<open>f\<close>, so that \<open>Fraction (3 / 10)\<close> is the literal \<open>0.3\<close>.
\<close>

type_synonym series = "(nat \<times> cell) list"

record 'g generator =
  seeded :: "nat \<Rightarrow> 'g"
  permutation :: "'g \<Rightarrow> nat \<Rightarrow> nat list \<times> 'g"

datatype size_spec = Fraction rat | Count int

text \<open>
  \<open>data.drop([...], axis=1)\<close> returns a new frame without the named columns and raises a
  key error when one is missing (the error names the first missing one here).
\<close>

fun drop_each :: "string list \<Rightarrow> dataframe \<Rightarrow> error + dataframe" where
  "drop_each [] df = Inr df"
| "drop_each (name # names) df =
     (case drop_column name df of Inl e \<Rightarrow> Inl e | Inr df' \<Rightarrow> drop_each names df')"

text \<open>Selection by position, as \<open>iloc\<close> does it.\<close>

definition take_rows :: "'a list \<Rightarrow> nat list \<Rightarrow> error + 'a list" where
  "take_rows xs positions =
     (if list_all (\<lambda>i. i < length xs) positions then Inr (map ((!) xs) positions)
      else Inl IndexError)"

subsection \<open>Float arithmetic\<close>

text \<open>
  The product \<open>test_size * n_samples\<close> is a product of IEEE 754 doubles: the row count
  is converted to the nearest double and the exact product of the two doubles is
  rounded to the nearest double, ties going to the even significand.  \<open>double x\<close> is
  the double nearest to \<open>x\<close>: a significand of 53 bits, scaled by the power of two
  that \<open>exponent\<close> finds.  The range of the exponent is not bounded here, which makes
  no difference between \<open>2^-1022\<close> and \<open>2^1024\<close>.
\<close>

definition exponent :: "rat \<Rightarrow> int" where
  "exponent x =
     (let (p, q) = quotient_of x; e = bitlen p - bitlen q
      in if x < 2 powi e then e - 1 else e)"

definition round_half_even :: "rat \<Rightarrow> int" where
  "round_half_even m =
     (let k = \<lfloor>m\<rfloor>; r = m - of_int k
      in if r < 1 / 2 then k else if 1 / 2 < r then k + 1 else if even k then k else k + 1)"

definition nearest_double :: "rat \<Rightarrow> rat" where
  "nearest_double x =
     (let quantum = 2 powi (exponent x - 52) in of_int (round_half_even (x / quantum)) * quantum)"

definition double :: "rat \<Rightarrow> rat" where
  "double x = (if x = 0 then 0 else if 0 < x then nearest_double x else - nearest_double (- x))"

subsection \<open>The split\<close>

text \<open>
  The sizes, as \<open>_validate_shuffle_split\<close> computes them: a fraction must lie strictly
  between 0 and 1 and gives the test set the float product of fraction and rows,
  rounded up; a count must lie strictly between 0 and the row count; a training size
  that is not given is the rest, and it must not be 0.  \<open>train_test_split\<close> asks for
  the sizes with the held-out size it was given and no training size, and
  \<open>ShuffleSplit\<close> validates the two counts once more before it draws the permutation.
\<close>

definition validate_shuffle_split :: "nat \<Rightarrow> size_spec \<Rightarrow> int option \<Rightarrow> error + int \<times> int" where
  "validate_shuffle_split n_samples test_size train_size =
     (if (case test_size of
            Fraction f \<Rightarrow> double f \<le> 0 \<or> 1 \<le> double f
          | Count c \<Rightarrow> int n_samples \<le> c \<or> c \<le> 0)
      then Inl ValueError
      else if (case train_size of None \<Rightarrow> False | Some c \<Rightarrow> int n_samples \<le> c \<or> c \<le> 0)
      then Inl ValueError
      else
        let n_test = (case test_size of
                        Fraction f \<Rightarrow> \<lceil>double (double f * double (of_nat n_samples))\<rceil>
                      | Count c \<Rightarrow> c);
            n_train = (case train_size of None \<Rightarrow> int n_samples - n_test | Some c \<Rightarrow> c)
        in if int n_samples < n_train + n_test then Inl ValueError
           else if n_train = 0 then Inl ValueError
           else Inr (n_train, n_test))"

text \<open>
  With a seed the permutation comes from a generator made from the seed alone and the
  process-wide state is left as it was; without one it comes from the process-wide
  state, which advances.  The first \<open>n_test\<close> positions of the permutation are the
  test rows, the next \<open>n_train\<close> the training rows.
\<close>

definition shuffled :: "'g generator \<Rightarrow> nat option \<Rightarrow> 'g \<Rightarrow> nat \<Rightarrow> nat list \<times> 'g" where
  "shuffled gen random_state global n =
     (case random_state of
        Some seed \<Rightarrow> (fst (permutation gen (seeded gen seed) n), global)
      | None \<Rightarrow> permutation gen global n)"

definition train_test_split ::
  "'g generator \<Rightarrow> 'g \<Rightarrow> dataframe \<Rightarrow> series \<Rightarrow> size_spec \<Rightarrow> nat option
     \<Rightarrow> (error + dataframe \<times> dataframe \<times> series \<times> series) \<times> 'g" where
  "train_test_split gen global x y test_size random_state =
     (if length (rows x) \<noteq> length y then (Inl ValueError, global)
      else
        case validate_shuffle_split (length (rows x)) test_size None of
          Inl e \<Rightarrow> (Inl e, global)
        | Inr (train_size, test_size') \<Rightarrow>
            case validate_shuffle_split (length (rows x)) (Count test_size') (Some train_size) of
              Inl e \<Rightarrow> (Inl e, global)
            | Inr (n_train, n_test) \<Rightarrow>
                let (perm, global') = shuffled gen random_state global (length (rows x));
                    test = take (nat n_test) perm;
                    train = drop (nat n_test) (take (nat (n_test + n_train)) perm)
                in case (take_rows (rows x) train, take_rows (rows x) test,
                         take_rows y train, take_rows y test) of
                     (Inr x_train, Inr x_test, Inr y_train, Inr y_test) \<Rightarrow>
                       (Inr (x\<lparr>rows := x_train\<rparr>, x\<lparr>rows := x_test\<rparr>, y_train, y_test), global')
                   | _ \<Rightarrow> (Inl IndexError, global'))"

definition train_test_splitting ::
  "'g generator \<Rightarrow> 'g \<Rightarrow> dataframe \<Rightarrow> size_spec
     \<Rightarrow> (error + dataframe \<times> dataframe \<times> series \<times> series) \<times> 'g" where
  "train_test_splitting gen global data test_size =
     (case drop_each [''CLASS'', ''CONTENT''] data of
        Inl e \<Rightarrow> (Inl e, global)
      | Inr x \<Rightarrow>
          (case getitem data ''CLASS'' of
             Inl e \<Rightarrow> (Inl e, global)
           | Inr labels \<Rightarrow>
               train_test_split gen global x (zip (index data) labels) test_size (Some 42)))"

definition default_test_size :: size_spec where
  "default_test_size = Fraction (3 / 10)"

section \<open>The evaluation stage\<close>

text \<open>
  Labels are the integers of the \<open>CLASS\<close> column.  The scikit-learn metric functions
  refuse collections of different length.  Scores are floating-point numbers in the
  notebook and exact rationals here; the one score that is not a number, the accuracy
  of an empty test set, has its own value.
\<close>

datatype score = Score rat | NotANumber

definition unique_labels :: "int list \<Rightarrow> int list \<Rightarrow> int list" where
  \<comment> \<open>the labels that occur in either collection, ascending\<close>
  "unique_labels y_true y_pred = classes (y_true @ y_pred)"

definition c_m :: "int list \<Rightarrow> int list \<Rightarrow> error + nat list list" where
  \<comment> \<open>\<open>sklearn.metrics.confusion_matrix(y_true, y_pred)\<close>, no \<open>labels\<close> given: one row
     and one column for each label that occurs, row by true label, column by prediction\<close>
  "c_m y_true y_pred =
     (if length y_true \<noteq> length y_pred then Inl ValueError
      else
        let labels = unique_labels y_true y_pred
        in Inr (map (\<lambda>t. map (\<lambda>p. count_list (zip y_true y_pred) (t, p)) labels) labels))"

definition display_names :: "string list" where
  \<comment> \<open>\<open>display_labels\<close> of \<open>confusion_matrix\<close> and \<open>target_names\<close> of \<open>classification_rep\<close>\<close>
  "display_names = [''SPAM'', ''NON-SPAM'']"

record figure =
  shown_matrix :: "nat list list"
  tick_labels :: "string list"

definition plot :: "nat list list \<Rightarrow> string list \<Rightarrow> error + figure" where
  \<comment> \<open>\<open>ConfusionMatrixDisplay(confusion_matrix=cm, display_labels=...).plot(...)\<close>: one tick
     per class of the matrix, and as many labels as ticks, or drawing raises\<close>
  "plot cm labels =
     (if length labels = length cm then Inr \<lparr>shown_matrix = cm, tick_labels = labels\<rparr>
      else Inl ValueError)"

definition confusion_matrix :: "int list \<Rightarrow> int list \<Rightarrow> error + figure" where
  \<comment> \<open>the function returns nothing; its effect, the figure it shows, is its value here\<close>
  "confusion_matrix y_pred y_test =
     (case c_m y_test y_pred of
        Inl e \<Rightarrow> Inl e
      | Inr cm \<Rightarrow> plot cm display_names)"

definition prf_divide :: "nat \<Rightarrow> nat \<Rightarrow> rat" where
  \<comment> \<open>a quotient that is 0 where the denominator is 0 (the library warns and returns 0)\<close>
  "prf_divide numerator denominator =
     (if denominator = 0 then 0 else of_nat numerator / of_nat denominator)"

definition accuracy_score :: "int list \<Rightarrow> int list \<Rightarrow> error + score" where
  "accuracy_score y_true y_pred =
     (if length y_true \<noteq> length y_pred then Inl ValueError
      else if y_true = [] then Inr NotANumber
      else Inr (Score (of_nat (length (filter (\<lambda>p. fst p = snd p) (zip y_true y_pred)))
                        / of_nat (length y_true))))"

definition precision_recall_fscore_support ::
  "int \<Rightarrow> int list \<Rightarrow> int list \<Rightarrow> error + score \<times> score \<times> score" where
  \<comment> \<open>with \<open>average='binary'\<close>: more than two labels are refused, and so is a positive
     label that does not occur when two labels do\<close>
  "precision_recall_fscore_support pos_label y_true y_pred =
     (if length y_true \<noteq> length y_pred then Inl ValueError
      else
        let present_labels = unique_labels y_true y_pred
        in if length present_labels > 2 then Inl ValueError
           else if pos_label \<notin> set present_labels \<and> length present_labels \<ge> 2 then Inl ValueError
           else
             let tp_sum = count_list (zip y_true y_pred) (pos_label, pos_label);
                 pred_sum = count_list y_pred pos_label;
                 true_sum = count_list y_true pos_label
             in Inr (Score (prf_divide tp_sum pred_sum),
                     Score (prf_divide tp_sum true_sum),
                     Score (prf_divide (2 * tp_sum) (true_sum + pred_sum))))"

text \<open>The notebook calls the three score functions with their defaults: \<open>pos_label=1\<close>.\<close>

definition precision_score :: "int list \<Rightarrow> int list \<Rightarrow> error + score" where
  "precision_score y_true y_pred = map_sum id fst (precision_recall_fscore_support 1 y_true y_pred)"

definition recall_score :: "int list \<Rightarrow> int list \<Rightarrow> error + score" where
  "recall_score y_true y_pred =
     map_sum id (fst \<circ> snd) (precision_recall_fscore_support 1 y_true y_pred)"

definition f1_score :: "int list \<Rightarrow> int list \<Rightarrow> error + score" where
  "f1_score y_true y_pred =
     map_sum id (snd \<circ> snd) (precision_recall_fscore_support 1 y_true y_pred)"

definition model_evaluation_scores ::
  "int list \<Rightarrow> int list \<Rightarrow> error + score \<times> score \<times> score \<times> score" where
  "model_evaluation_scores y_pred y_test =
     (case accuracy_score y_test y_pred of
        Inl e \<Rightarrow> Inl e
      | Inr accuracy \<Rightarrow>
     (case precision_score y_test y_pred of
        Inl e \<Rightarrow> Inl e
      | Inr precision \<Rightarrow>
     (case recall_score y_test y_pred of
        Inl e \<Rightarrow> Inl e
      | Inr recall \<Rightarrow>
     (case f1_score y_test y_pred of
        Inl e \<Rightarrow> Inl e
      | Inr f1 \<Rightarrow> Inr (accuracy, precision, recall, f1)))))"

definition display_name :: "int list \<Rightarrow> int list \<Rightarrow> int \<Rightarrow> string option" where
  \<comment> \<open>the names go to the labels that occur, in ascending order, by position\<close>
  "display_name y_true y_pred label =
     (let k = position (unique_labels y_true y_pred) label
      in if label \<in> set (unique_labels y_true y_pred) \<and> k < length display_names
         then Some (display_names ! k) else None)"

definition tally :: "nat \<Rightarrow> (nat \<Rightarrow> bool) \<Rightarrow> nat" where
  \<comment> \<open>how many of the first \<open>n\<close> positions satisfy \<open>P\<close>\<close>
  "tally n P = card {k. k < n \<and> P k}"

definition ratio :: "nat \<Rightarrow> nat \<Rightarrow> rat" where
  "ratio a b = of_nat a / of_nat b"

section \<open>Frames as shared objects\<close>





section \<open>Sample tables\<close>

definition sample_comments :: dataframe where
  "sample_comments =
     \<lparr>columns = [''COMMENT_ID'', ''AUTHOR'', ''DATE'', ''CONTENT'', ''VIDEO_NAME'', ''CLASS''],
      rows =
        [(0, [Str ''c1'', Str ''bob'', Str ''d1'', Str ''buy now'', Str ''v2'', Num 1]),
         (1, [Str ''c2'', Str ''alice'', NaN, Str ''nice'', Str ''v1'', Num 0]),
         (2, [Str ''c3'', Str ''alice'', Str ''d1'', Str ''nice video'', Str ''v1'', Num 0]),
         (3, [Str ''c1'', Str ''bob'', Str ''d1'', Str ''buy now'', Str ''v2'', Num 1]),
         (4, [Str ''c4'', Str ''alice'', Str ''d1'', Str ''nice video'', Str ''v1'', Num 0])]\<rparr>"

definition sample_cleaned :: dataframe where
  "sample_cleaned =
     \<lparr>columns = [''AUTHOR'', ''CONTENT'', ''VIDEO_NAME'', ''CLASS''],
      rows =
        [(0, [Num 1, Str ''buy now'', Num 1, Num 1]),
         (1, [Num 0, Str ''nice video'', Num 0, Num 0]),
         (2, [Num 0, Str ''nice video'', Num 0, Num 0])]\<rparr>"

definition sample_y_test :: "int list" where
  "sample_y_test = [0, 1, 1, 0, 1]"

definition sample_y_pred :: "int list" where
  "sample_y_pred = [0, 1, 0, 0, 0]"

text \<open>
  An analyzer for the examples: on ASCII text it does what the library's default does,
  lower case and then the runs of two or more letters, digits and underscores.
\<close>

definition ascii_word_char :: "char \<Rightarrow> bool" where
  "ascii_word_char c \<longleftrightarrow>
     (CHR ''a'' \<le> c \<and> c \<le> CHR ''z'') \<or> (CHR ''A'' \<le> c \<and> c \<le> CHR ''Z'')
     \<or> (CHR ''0'' \<le> c \<and> c \<le> CHR ''9'') \<or> c = CHR ''_''"

definition ascii_lower :: "char \<Rightarrow> char" where
  "ascii_lower c =
     (if CHR ''A'' \<le> c \<and> c \<le> CHR ''Z'' then char_of (of_char c + (32 :: nat)) else c)"

fun ascii_tokens_from :: "string \<Rightarrow> string \<Rightarrow> string list" where
  \<comment> \<open>the maximal runs of word characters that are at least two long; \<open>run\<close> is the run
     being read\<close>
  "ascii_tokens_from run [] = (if length run \<ge> 2 then [run] else [])"
| "ascii_tokens_from run (c # cs) =
     (if ascii_word_char c then ascii_tokens_from (run @ [c]) cs
      else (if length run \<ge> 2 then [run] else []) @ ascii_tokens_from [] cs)"

definition ascii_analyzer :: "string \<Rightarrow> string list" where
  "ascii_analyzer doc = ascii_tokens_from [] (map ascii_lower doc)"

definition sample_combined :: dataframe where
  "sample_combined =
     \<lparr>columns = [''AUTHOR'', ''CONTENT'', ''VIDEO_NAME'', ''CLASS'',
                 ''buy'', ''nice'', ''now'', ''video''],
      rows =
        [(0, [Num 1, Str ''buy now'', Num 1, Num 1, Num 1, Num 0, Num 1, Num 0]),
         (1, [Num 0, Str ''nice video'', Num 0, Num 0, Num 0, Num 1, Num 0, Num 1]),
         (2, [Num 0, Str ''nice video'', Num 0, Num 0, Num 0, Num 1, Num 0, Num 1])]\<rparr>"




text \<open>A generator for the examples: its permutations are rotations.\<close>

definition rotating :: "nat generator" where
  "rotating = \<lparr>seeded = Suc, permutation = (\<lambda>g n. (rotate g [0 ..< n], Suc g))\<rparr>"

definition sample_x_train :: dataframe where
  "sample_x_train =
     \<lparr>columns = [''AUTHOR'', ''VIDEO_NAME'', ''buy'', ''nice'', ''now'', ''video''],
      rows = [(2, [Num 0, Num 0, Num 0, Num 1, Num 0, Num 1]),
              (0, [Num 1, Num 1, Num 1, Num 0, Num 1, Num 0])]\<rparr>"

definition sample_x_test :: dataframe where
  "sample_x_test =
     \<lparr>columns = [''AUTHOR'', ''VIDEO_NAME'', ''buy'', ''nice'', ''now'', ''video''],
      rows = [(1, [Num 0, Num 0, Num 0, Num 1, Num 0, Num 1])]\<rparr>"

definition sample_y_train :: series where
  "sample_y_train = [(2, Num 0), (0, Num 1)]"

definition sample_y_test_series :: series where
  "sample_y_test_series = [(1, Num 0)]"

section \<open>Facts about the table operations\<close>

lemma position_less: "x \<in> set xs \<Longrightarrow> position xs x < length xs"
  by (induction xs) auto

lemma remove_null_rows_eq: "remove_null_rows df = Inr (dropna df)"
proof -
  have "\<not> list_ex has_null (rows df) \<Longrightarrow> filter (\<lambda>r. \<not> has_null r) (rows df) = rows df"
    by (simp add: list_ex_iff)
  then show ?thesis
    by (auto simp: remove_null_rows_def dropna_def)
qed

lemma unmarked_all:
  "True \<notin> set (duplicated_from seen (map snd rs)) \<Longrightarrow>
   unmarked (duplicated_from seen (map snd rs)) rs = rs"
  by (induction rs arbitrary: seen) auto

lemma remove_duplicate_rows_eq: "remove_duplicate_rows df = Inr (drop_duplicates df)"
  using unmarked_all [of "[]" "rows df"]
  by (auto simp: remove_duplicate_rows_def drop_duplicates_def duplicated_def cells_def)



lemma unmarked_subset: "set (unmarked ms xs) \<subseteq> set xs"
  by (induction ms xs rule: unmarked.induct) auto





lemma texts_length: "texts cs = Some ss \<Longrightarrow> length ss = length cs"
  by (induction cs arbitrary: ss rule: texts.induct) auto

lemma numbers_length: "numbers cs = Some ns \<Longrightarrow> length ns = length cs"
  by (induction cs arbitrary: ns rule: numbers.induct) auto

lemma encode_props: "length (encode xs) = length xs" "list_all is_num (encode xs)"
  by (simp_all add: encode_def list_all_iff)

lemma fit_transform_codes:
  assumes "fit_transform cs = Inr codes"
  shows "length codes = length cs" and "list_all is_num codes"
  using assms texts_length [of cs] numbers_length [of cs]
  by (auto simp: fit_transform_def encode_props split: option.splits)

lemma getitem_length: "getitem df name = Inr col \<Longrightarrow> length col = length (rows df)"
  by (auto simp: getitem_def split: option.splits)

lemma data_cleaning_encoding_steps:
  assumes "data_cleaning_encoding data = (None, out)"
  obtains a v d e where
    "encode_column ''AUTHOR'' (drop_duplicates (dropna data)) = Inr a"
    "encode_column ''VIDEO_NAME'' a = Inr v"
    "drop_column ''DATE'' v = Inr d"
    "drop_column ''COMMENT_ID'' d = Inr e"
    "out = reset_index e"
  using assms
  by (auto simp: data_cleaning_encoding_def run_stmt_def remove_null_rows_eq
      remove_duplicate_rows_eq split: sum.splits)




lemma prepared_no_null: "\<not> list_ex has_null (rows (drop_duplicates (dropna df)))"
  using unmarked_subset [of "duplicated (dropna df)" "rows (dropna df)"]
  by (auto simp: drop_duplicates_def dropna_def list_ex_iff)


lemma position_nth: "x \<in> set xs \<Longrightarrow> xs ! position xs x = x"
  by (induction xs) auto

lemma position_eq_iff: "x \<in> set xs \<Longrightarrow> position xs x = position xs y \<longleftrightarrow> x = y"
  by (induction xs) auto

lemma cut_remove1: "take (position xs n) xs @ drop (Suc (position xs n)) xs = remove1 n xs"
  by (induction xs) auto

lemma cut_nth:
  "m \<in> set xs \<Longrightarrow> m \<noteq> n \<Longrightarrow> length r = length xs \<Longrightarrow>
   (take (position xs n) r @ drop (Suc (position xs n)) r) ! position (remove1 n xs) m
     = r ! position xs m"
proof (induction xs arbitrary: r)
  case Nil
  then show ?case by simp
next
  case (Cons x xs)
  then obtain c r' where r: "r = c # r'" by (cases r) auto
  with Cons show ?case by auto
qed

lemma getitem_iff:
  "getitem df m = Inr col \<longleftrightarrow> m \<in> set (columns df) \<and> col = col_at (position (columns df) m) df"
  by (auto simp: getitem_def column_pos_def col_at_def)

lemma getitem_KeyError: "m \<notin> set (columns df) \<Longrightarrow> getitem df m = Inl (KeyError m)"
  by (simp add: getitem_def column_pos_def)

lemma wf_frame_rows: "wf_frame df \<Longrightarrow> r \<in> set (rows df) \<Longrightarrow> length (snd r) = length (columns df)"
  by (simp add: wf_frame_def list_all_iff)

lemma wf_subframe:
  "wf_frame df \<Longrightarrow> columns df' = columns df \<Longrightarrow> set (rows df') \<subseteq> set (rows df) \<Longrightarrow> wf_frame df'"
  by (auto simp: wf_frame_def list_all_iff)

lemma wf_dropna: "wf_frame df \<Longrightarrow> wf_frame (dropna df)"
  by (simp add: wf_frame_def dropna_def list_all_iff)

lemma wf_drop_duplicates: "wf_frame df \<Longrightarrow> wf_frame (drop_duplicates df)"
proof (rule wf_subframe [of df])
  show "columns (drop_duplicates df) = columns df"
    by (simp add: drop_duplicates_def)
  show "set (rows (drop_duplicates df)) \<subseteq> set (rows df)"
    by (simp add: drop_duplicates_def unmarked_subset)
qed

lemma wf_reset_index: "wf_frame df \<Longrightarrow> wf_frame (reset_index df)"
  by (auto simp: wf_frame_def reset_index_def cells_def list_all_iff dest!: set_zip_rightD)

lemma map_snd_zip_fun: "length ks = length cs \<Longrightarrow> map (\<lambda>r. f (snd r)) (zip ks cs) = map f cs"
  by (induction ks cs rule: list_induct2) auto

lemma col_at_reset_index: "col_at j (reset_index df) = col_at j df"
  using map_snd_zip_fun [of "[0 ..< length (rows df)]" "map snd (rows df)" "\<lambda>c. c ! j"]
  by (simp add: col_at_def reset_index_def cells_def comp_def)

lemma setitem_present:
  assumes "n \<in> set (columns df)"
  shows "columns (setitem df n vs) = columns df"
    and "rows (setitem df n vs)
           = map2 (\<lambda>r v. (fst r, (snd r)[position (columns df) n := v])) (rows df) vs"
  using assms by (simp_all add: setitem_def column_pos_def)

lemma wf_setitem:
  assumes "wf_frame df" "n \<in> set (columns df)"
  shows "wf_frame (setitem df n vs)"
  using assms
  by (auto simp: wf_frame_def setitem_present list_all_iff dest!: set_zip_leftD)

lemma col_at_setitem:
  assumes "wf_frame df" "n \<in> set (columns df)" "length vs = length (rows df)"
  shows "col_at k (setitem df n vs) = (if k = position (columns df) n then vs else col_at k df)"
proof -
  let ?j = "position (columns df) n"
  have j: "?j < length (snd r)" if "r \<in> set (rows df)" for r
    using that assms(1,2) by (simp add: wf_frame_rows position_less)
  have "col_at k (setitem df n vs) = map (\<lambda>p. (snd (fst p))[?j := snd p] ! k) (zip (rows df) vs)"
    by (simp add: col_at_def setitem_present [OF assms(2)] case_prod_unfold)
  also have "\<dots> = (if k = ?j then map snd (zip (rows df) vs) else map (\<lambda>r. snd r ! k) (map fst (zip (rows df) vs)))"
    using j by (auto dest: set_zip_leftD)
  also have "\<dots> = (if k = ?j then vs else col_at k df)"
    using assms(3) by (simp add: col_at_def)
  finally show ?thesis .
qed

lemma getitem_setitem:
  assumes "wf_frame df" "n \<in> set (columns df)" "length vs = length (rows df)"
  shows "getitem (setitem df n vs) m = (if m = n then Inr vs else getitem df m)"
proof (cases "m \<in> set (columns df)")
  case True
  then show ?thesis
    using assms(2) position_eq_iff [of m "columns df" n]
    by (auto simp: getitem_def column_pos_def setitem_present(1)
        col_at_setitem [OF assms, unfolded col_at_def])
next
  case False
  then show ?thesis
    using assms(2) by (auto simp: getitem_KeyError setitem_present(1))
qed

lemma encode_column_Inr:
  assumes "encode_column n df = Inr df'"
  obtains col codes where "getitem df n = Inr col" "fit_transform col = Inr codes"
    "df' = setitem df n codes" "n \<in> set (columns df)" "length codes = length (rows df)"
proof -
  from assms obtain col codes where
    *: "getitem df n = Inr col" "fit_transform col = Inr codes" "df' = setitem df n codes"
    by (auto simp: encode_column_def split: sum.splits)
  moreover have "n \<in> set (columns df)"
    using *(1) by (simp add: getitem_iff)
  moreover have "length codes = length (rows df)"
    using fit_transform_codes(1) [OF *(2)] getitem_length [OF *(1)] by simp
  ultimately show ?thesis using that by blast
qed

lemma encode_column_frame:
  assumes "wf_frame df" "encode_column n df = Inr df'"
  shows "wf_frame df'" and "columns df' = columns df"
    and "m \<noteq> n \<Longrightarrow> getitem df' m = getitem df m"
    and "\<exists>codes. getitem df' n = Inr codes \<and> list_all is_num codes"
proof -
  from assms(2) obtain col codes where
    col: "getitem df n = Inr col" and fit: "fit_transform col = Inr codes"
    and df': "df' = setitem df n codes" and n: "n \<in> set (columns df)"
    and len: "length codes = length (rows df)"
    by (rule encode_column_Inr)
  show "wf_frame df'" by (simp add: df' wf_setitem assms(1) n)
  show "columns df' = columns df" by (simp add: df' setitem_present(1) n)
  show "getitem df' m = getitem df m" if "m \<noteq> n"
    using that by (simp add: df' getitem_setitem [OF assms(1) n len])
  show "\<exists>codes. getitem df' n = Inr codes \<and> list_all is_num codes"
    using fit_transform_codes(2) [OF fit] by (simp add: df' getitem_setitem [OF assms(1) n len])
qed

lemma drop_column_Inr:
  assumes "drop_column n df = Inr df'"
  shows "n \<in> set (columns df)" and "columns df' = remove1 n (columns df)"
    and "rows df' = map (\<lambda>r. (fst r, take (position (columns df) n) (snd r)
                                    @ drop (Suc (position (columns df) n)) (snd r))) (rows df)"
  using assms
  by (auto simp: drop_column_def column_pos_def cut_remove1 split: if_splits)

lemma drop_column_KeyError: "n \<notin> set (columns df) \<Longrightarrow> drop_column n df = Inl (KeyError n)"
  by (simp add: drop_column_def column_pos_def)

lemma drop_column_frame:
  assumes "wf_frame df" "drop_column n df = Inr df'"
  shows "wf_frame df'" and "n \<notin> set (columns df')"
    and "m \<noteq> n \<Longrightarrow> getitem df' m = getitem df m"
proof -
  note d = drop_column_Inr [OF assms(2)]
  let ?j = "position (columns df) n"
  have dist: "distinct (columns df)" using assms(1) by (simp add: wf_frame_def)
  have j: "?j < length (columns df)" using d(1) by (rule position_less)
  show "wf_frame df'"
    using dist j wf_frame_rows [OF assms(1)]
    by (auto simp: wf_frame_def d(2,3) list_all_iff length_remove1 d(1))
  show "n \<notin> set (columns df')"
    using dist by (simp add: d(2))
  show "getitem df' m = getitem df m" if "m \<noteq> n"
  proof (cases "m \<in> set (columns df)")
    case True
    have "(take ?j (snd r) @ drop (Suc ?j) (snd r)) ! position (remove1 n (columns df)) m
            = snd r ! position (columns df) m" if "r \<in> set (rows df)" for r
      using cut_nth [OF True \<open>m \<noteq> n\<close>, of "snd r"] wf_frame_rows [OF assms(1) that] by simp
    then have "col_at (position (columns df') m) df' = col_at (position (columns df) m) df"
      by (simp add: col_at_def d(2,3) comp_def)
    then show ?thesis
      using True that by (simp add: getitem_def column_pos_def d(2) col_at_def)
  next
    case False
    then show ?thesis
      using that by (simp add: getitem_KeyError d(2))
  qed
qed

lemma getitem_reset_index: "getitem (reset_index df) m = getitem df m"
  using col_at_reset_index [of "position (columns df) m" df]
  by (simp add: getitem_def column_pos_def col_at_def reset_index_def)

lemma position_sorted_distinct:
  "sorted ys \<Longrightarrow> distinct ys \<Longrightarrow> x \<in> set ys \<Longrightarrow> position ys x = card {y \<in> set ys. y < x}"
proof (induction ys)
  case Nil
  then show ?case by simp
next
  case (Cons a ys)
  show ?case
  proof (cases "x = a")
    case True
    have "{y \<in> set (a # ys). y < a} = {}"
      using Cons.prems(1) by auto
    with True show ?thesis by simp
  next
    case False
    with Cons.prems have x: "x \<in> set ys" and ax: "a < x" by auto
    have "{y \<in> set (a # ys). y < x} = insert a {y \<in> set ys. y < x}"
      using ax by auto
    moreover have "a \<notin> {y \<in> set ys. y < x}"
      using Cons.prems(2) by simp
    ultimately have "card {y \<in> set (a # ys). y < x} = Suc (card {y \<in> set ys. y < x})"
      by simp
    with Cons.IH Cons.prems x False show ?thesis by simp
  qed
qed

lemma position_classes: "x \<in> set xs \<Longrightarrow> position (classes xs) x = rank xs x"
  using position_sorted_distinct [of "classes xs" x]
  by (simp add: classes_def rank_def sorted_remdups)

lemma encode_rank: "encode xs = map (\<lambda>x. Num (int (rank xs x))) xs"
  by (simp add: encode_def position_classes)

lemma fit_transform_texts: "texts cs = Some ss \<Longrightarrow> fit_transform cs = Inr (encode ss)"
  by (simp add: fit_transform_def)

lemma numbers_total: "list_all is_num cs \<Longrightarrow> numbers cs \<noteq> None"
  by (induction cs rule: numbers.induct) auto

lemma fit_transform_numeric: "list_all is_num cs \<Longrightarrow> \<exists>codes. fit_transform cs = Inr codes"
  using numbers_total [of cs] by (auto simp: fit_transform_def split: option.splits)

lemma encode_column_numeric:
  assumes "getitem df n = Inr col" "list_all is_num col"
  shows "\<exists>df'. encode_column n df = Inr df'"
  using assms fit_transform_numeric [OF assms(2)] by (auto simp: encode_column_def)

lemma getitem_subframe:
  assumes "columns df' = columns df" "set (rows df') \<subseteq> set (rows df)"
    "getitem df m = Inr col" "list_all P col"
  shows "\<exists>col'. getitem df' m = Inr col' \<and> list_all P col'"
  using assms by (auto simp: getitem_iff col_at_def list_all_iff)

lemma prepared_subframe:
  "columns (drop_duplicates (dropna df)) = columns df"
  "set (rows (drop_duplicates (dropna df))) \<subseteq> set (rows df)"
  using unmarked_subset [of "duplicated (dropna df)" "rows (dropna df)"]
  by (auto simp: drop_duplicates_def dropna_def)

lemma wf_prepared: "wf_frame df \<Longrightarrow> wf_frame (drop_duplicates (dropna df))"
  by (simp add: wf_dropna wf_drop_duplicates)

subsection \<open>Labels and counts\<close>

lemma classes_sorted_distinct: "sorted (classes xs)" "distinct (classes xs)" "set (classes xs) = set xs"
  by (simp_all add: classes_def sorted_remdups)

lemma classes_length: "length (classes xs) = card (set xs)"
  using distinct_card [of "classes xs"] by (simp add: classes_sorted_distinct)

lemma classes_two: "set xs = {0, 1 :: int} \<Longrightarrow> classes xs = [0, 1]"
  using sorted_distinct_set_unique [of "classes xs" "[0, 1]"]
  by (simp add: classes_sorted_distinct)

lemma count_pairs_row:
  "length ts = length ps \<Longrightarrow> set ps \<subseteq> {0, 1 :: int} \<Longrightarrow>
   count_list (zip ts ps) (t, 0) + count_list (zip ts ps) (t, 1) = count_list ts t"
  by (induction ts ps rule: list_induct2) auto

lemma count_pairs_column:
  "length ts = length ps \<Longrightarrow> set ts \<subseteq> {0, 1 :: int} \<Longrightarrow>
   count_list (zip ts ps) (0, p) + count_list (zip ts ps) (1, p) = count_list ps p"
  by (induction ts ps rule: list_induct2) auto

lemma count_two_labels: "set ts \<subseteq> {0, 1 :: int} \<Longrightarrow> count_list ts 0 + count_list ts 1 = length ts"
  by (induction ts) auto

lemma tally_Suc: "tally (Suc n) P = (if P n then Suc (tally n P) else tally n P)"
proof -
  have "{k. k < Suc n \<and> P k} = (if P n then insert n {k. k < n \<and> P k} else {k. k < n \<and> P k})"
    by (auto simp: less_Suc_eq)
  then show ?thesis by (simp add: tally_def)
qed

lemma tally_0: "tally 0 P = 0"
  by (simp add: tally_def)

lemma length_filter_tally: "length (filter Q xs) = tally (length xs) (\<lambda>k. Q (xs ! k))"
proof (induction xs rule: rev_induct)
  case Nil
  show ?case by (simp add: tally_0)
next
  case (snoc x xs)
  have "tally (length xs) (\<lambda>k. Q ((xs @ [x]) ! k)) = tally (length xs) (\<lambda>k. Q (xs ! k))"
    unfolding tally_def by (rule arg_cong [where f = card]) (auto simp: nth_append)
  with snoc show ?case by (simp add: tally_Suc)
qed

lemma count_list_tally: "count_list xs x = tally (length xs) (\<lambda>k. xs ! k = x)"
proof -
  have "(\<lambda>k. x = xs ! k) = (\<lambda>k. xs ! k = x)"
    by auto
  then show ?thesis
    using length_filter_tally [of "(=) x" xs] by (simp add: count_list_eq_length_filter)
qed

lemma count_zip_tally:
  "length xs = length ys \<Longrightarrow>
   count_list (zip xs ys) (a, b) = tally (length xs) (\<lambda>k. xs ! k = a \<and> ys ! k = b)"
proof -
  assume len: "length xs = length ys"
  have "tally (length (zip xs ys)) (\<lambda>k. zip xs ys ! k = (a, b))
          = tally (length xs) (\<lambda>k. xs ! k = a \<and> ys ! k = b)"
    unfolding tally_def using len by (intro arg_cong [where f = card]) auto
  then show ?thesis by (simp add: count_list_tally)
qed

lemma matches_tally:
  "length xs = length ys \<Longrightarrow>
   length (filter (\<lambda>p. fst p = snd p) (zip xs ys)) = tally (length xs) (\<lambda>k. ys ! k = xs ! k)"
proof -
  assume len: "length xs = length ys"
  have "tally (length (zip xs ys)) (\<lambda>k. fst (zip xs ys ! k) = snd (zip xs ys ! k))
          = tally (length xs) (\<lambda>k. ys ! k = xs ! k)"
    unfolding tally_def using len by (intro arg_cong [where f = card]) auto
  then show ?thesis by (simp add: length_filter_tally)
qed

text \<open>
  What the scores are on the sample: three of five predictions match; for label 1 the
  precision is 1 and the recall 1/3, for label 0 they would be 1/2 and 1.
\<close>

lemma sample_scores:
  "model_evaluation_scores sample_y_pred sample_y_test
     = Inr (Score (3 / 5), Score 1, Score (1 / 3), Score (1 / 2))"
  "precision_recall_fscore_support 0 sample_y_test sample_y_pred
     = Inr (Score (1 / 2), Score 1, Score (2 / 3))"
  by code_simp+

subsection \<open>The vectorizing stage\<close>

lemma documents_Inr: "documents holds_text cs = Inr docs \<Longrightarrow> texts cs = Some docs \<and> length docs = length cs"
  by (induction holds_text cs arbitrary: docs rule: documents.induct)
    (auto split: sum.splits if_splits)

lemma documents_texts: "texts cs = Some docs \<Longrightarrow> documents holds_text cs = Inr docs"
  by (induction cs arbitrary: docs rule: texts.induct) auto

lemma cells_reset_index: "cells (reset_index df) = cells df"
  by (simp add: reset_index_def cells_def)

lemma index_reset_index: "index (reset_index df) = [0 ..< length (rows df)]"
  by (simp add: reset_index_def cells_def index_def)

lemma length_rows_reset_index: "length (rows (reset_index df)) = length (rows df)"
  by (simp add: reset_index_def cells_def)

lemma cells_concat_columns: "cells (concat_columns a b) = map2 (@) (cells a) (cells b)"
proof -
  have "map snd (map2 (\<lambda>ra rb. (fst ra, snd ra @ snd rb)) xs ys) = map2 (@) (map snd xs) (map snd ys)"
    for xs ys :: "(nat \<times> cell list) list"
    by (induction xs ys rule: list_induct2') auto
  then show ?thesis
    by (simp add: concat_columns_def cells_def)
qed

lemma index_concat_columns:
  "length (rows a) = length (rows b) \<Longrightarrow> index (concat_columns a b) = index a"
proof -
  have "length xs = length ys \<Longrightarrow> map fst (map2 (\<lambda>ra rb. (fst ra, snd ra @ snd rb)) xs ys) = map fst xs"
    for xs ys :: "(nat \<times> cell list) list"
    by (induction xs ys rule: list_induct2) auto
  then show "length (rows a) = length (rows b) \<Longrightarrow> index (concat_columns a b) = index a"
    by (simp add: concat_columns_def index_def)
qed

lemma DataFrame_frame:
  "columns (DataFrame array names) = names"
  "length (rows (DataFrame array names)) = length array"
  "cells (DataFrame array names) = map (map (\<lambda>n. Num (int n))) array"
  by (simp_all add: DataFrame_def cells_def)

lemma vectorizing_Inr:
  assumes "vectorizing analyzer cleaned = (Inr combined, cleaned')"
  obtains feature docs where
    "getitem cleaned ''CONTENT'' = Inr feature" "documents (list_ex is_text feature) feature = Inr docs"
    "classes (concat (map analyzer docs)) \<noteq> []"
    "cleaned' = reset_index cleaned"
    "combined = concat_columns (reset_index cleaned)
       (reset_index (DataFrame
          (map (\<lambda>doc. map (\<lambda>term. count_list (analyzer doc) term) (classes (concat (map analyzer docs)))) docs)
          (classes (concat (map analyzer docs)))))"
  using assms
  by (auto simp: vectorizing_def count_vectorizer_fit_transform_def Let_def
      split: sum.splits if_splits)

lemma vectorizing_succeeds:
  assumes "getitem cleaned ''CONTENT'' = Inr feature" and "texts feature = Some docs"
    and "term \<in> set (analyzer doc)" and "doc \<in> set docs"
  shows "\<exists>combined. vectorizing analyzer cleaned = (Inr combined, reset_index cleaned)"
proof -
  have "term \<in> set (classes (concat (map analyzer docs)))"
    using assms(3,4) by (auto simp: classes_sorted_distinct(3))
  then have "classes (concat (map analyzer docs)) \<noteq> []"
    by auto
  then show ?thesis
    using assms(1) documents_texts [OF assms(2)]
    by (simp add: vectorizing_def count_vectorizer_fit_transform_def Let_def)
qed

lemma ascii_analyzer_example:
  "ascii_analyzer ''Buy CHEAP followers now, a b_c 12 x!'' = [''buy'', ''cheap'', ''followers'', ''now'', ''b_c'', ''12'']"
  by code_simp

subsection \<open>What the cleaning stage leaves in the frame\<close>



subsection \<open>The cleaning stage returns on a well-formed raw table\<close>

text \<open>
  On a rectangular table that has the four columns the function names, with \<open>AUTHOR\<close>
  and \<open>VIDEO_NAME\<close> holding texts or missing values, no statement raises.
\<close>

lemma texts_total: "list_all is_text cs \<Longrightarrow> \<exists>ss. texts cs = Some ss"
  by (induction cs rule: texts.induct) auto

lemma encode_column_text:
  assumes "getitem df n = Inr col" "list_all is_text col"
  shows "\<exists>df'. encode_column n df = Inr df'"
  using assms texts_total [OF assms(2)] by (auto simp: encode_column_def fit_transform_def)

lemma prepared_text_column:
  assumes "wf_frame data" and "getitem data n = Inr col"
    and "list_all (\<lambda>c. is_text c \<or> c = NaN) col"
  shows "\<exists>col'. getitem (drop_duplicates (dropna data)) n = Inr col' \<and> list_all is_text col'"
proof -
  let ?pre = "drop_duplicates (dropna data)"
  let ?j = "position (columns data) n"
  have n: "n \<in> set (columns data)" and col: "col = col_at ?j data"
    using assms(2) by (simp_all add: getitem_iff)
  have "is_text (snd r ! ?j)" if r: "r \<in> set (rows ?pre)" for r
  proof -
    have in_data: "r \<in> set (rows data)"
      using r prepared_subframe(2) by auto
    have "?j < length (snd r)"
      using wf_frame_rows [OF assms(1) in_data] position_less [OF n] by simp
    then have "snd r ! ?j \<in> set (snd r)"
      by simp
    moreover have "NaN \<notin> set (snd r)"
      using prepared_no_null [of data] r by (auto simp: list_ex_iff has_null_def)
    ultimately have "snd r ! ?j \<noteq> NaN"
      by metis
    moreover have "is_text (snd r ! ?j) \<or> snd r ! ?j = NaN"
      using assms(3) in_data by (auto simp: col col_at_def list_all_iff)
    ultimately show ?thesis by simp
  qed
  then show ?thesis
    using n by (simp add: getitem_iff prepared_subframe(1) col_at_def list_all_iff)
qed

lemma cleaning_succeeds:
  assumes "wf_frame data"
    and "''DATE'' \<in> set (columns data)" and "''COMMENT_ID'' \<in> set (columns data)"
    and "getitem data ''AUTHOR'' = Inr authors" and "list_all (\<lambda>c. is_text c \<or> c = NaN) authors"
    and "getitem data ''VIDEO_NAME'' = Inr videos" and "list_all (\<lambda>c. is_text c \<or> c = NaN) videos"
  shows "\<exists>out. data_cleaning_encoding data = (None, out)"
proof -
  let ?pre = "drop_duplicates (dropna data)"
  have wfp: "wf_frame ?pre" by (rule wf_prepared [OF assms(1)])
  obtain a where a: "encode_column ''AUTHOR'' ?pre = Inr a"
    using prepared_text_column [OF assms(1,4,5)] encode_column_text by blast
  have wfa: "wf_frame a" by (rule encode_column_frame(1) [OF wfp a])
  obtain cv where "getitem ?pre ''VIDEO_NAME'' = Inr cv" "list_all is_text cv"
    using prepared_text_column [OF assms(1,6,7)] by blast
  then have "getitem a ''VIDEO_NAME'' = Inr cv"
    by (simp add: encode_column_frame(3) [OF wfp a])
  then obtain v where v: "encode_column ''VIDEO_NAME'' a = Inr v"
    using encode_column_text \<open>list_all is_text cv\<close> by blast
  have cols: "columns v = columns data"
    by (simp add: encode_column_frame(2) [OF wfa v] encode_column_frame(2) [OF wfp a]
        prepared_subframe(1))
  obtain d where d: "drop_column ''DATE'' v = Inr d"
    using assms(2) by (simp add: drop_column_def column_pos_def cols)
  have "''COMMENT_ID'' \<in> set (columns d)"
    using assms(3) by (simp add: drop_column_Inr(2) [OF d] cols)
  then obtain e where e: "drop_column ''COMMENT_ID'' d = Inr e"
    by (simp add: drop_column_def column_pos_def)
  show ?thesis
    by (simp add: data_cleaning_encoding_def run_stmt_def remove_null_rows_eq
        remove_duplicate_rows_eq a v d e)
qed

subsection \<open>Float rounding\<close>

text \<open>Rounding to a double moves a value by at most one part in \<open>2^53\<close>.\<close>

lemma round_half_even_error: "\<bar>of_int (round_half_even m) - m\<bar> \<le> 1 / 2"
proof -
  have "of_int \<lfloor>m\<rfloor> \<le> m" "m < of_int \<lfloor>m\<rfloor> + 1"
    by linarith+
  then show ?thesis
    by (auto simp: round_half_even_def Let_def)
qed

lemma round_half_even_nonneg: "0 \<le> m \<Longrightarrow> 0 \<le> round_half_even m"
  by (auto simp: round_half_even_def Let_def)

lemma bitlen_powi:
  assumes "0 < n"
  shows "(2::rat) powi (bitlen n - 1) \<le> of_int n" and "(of_int n :: rat) < 2 powi bitlen n"
proof -
  have pos: "1 \<le> bitlen n"
    using assms by (simp add: bitlen_alt_def)
  have b: "2 ^ nat (bitlen n - 1) \<le> n" "n < 2 ^ nat (bitlen n)"
    using bitlen_bounds [OF assms] by simp_all
  have "(2::rat) powi (bitlen n - 1) = 2 ^ nat (bitlen n - 1)"
    using pos by (simp add: power_int_def)
  also have "\<dots> = of_int (2 ^ nat (bitlen n - 1))"
    by simp
  also have "\<dots> \<le> of_int n"
    using b(1) by (simp only: of_int_le_iff)
  finally show "(2::rat) powi (bitlen n - 1) \<le> of_int n" .
  have "(of_int n :: rat) < of_int (2 ^ nat (bitlen n))"
    using b(2) by (simp only: of_int_less_iff)
  also have "\<dots> = 2 powi bitlen n"
    using pos by (simp add: power_int_def)
  finally show "(of_int n :: rat) < 2 powi bitlen n" .
qed

lemma exponent_le:
  assumes "0 < x"
  shows "2 powi exponent x \<le> x"
proof -
  obtain p q where pq: "quotient_of x = (p, q)"
    by (cases "quotient_of x")
  have q: "0 < q" and x: "x = of_int p / of_int q"
    using quotient_of_denom_pos [OF pq] quotient_of_div [OF pq] by simp_all
  have p: "0 < p"
    using assms q by (simp add: x zero_less_divide_iff)
  let ?e = "bitlen p - bitlen q"
  show ?thesis
  proof (cases "x < 2 powi ?e")
    case False
    then show ?thesis
      by (simp add: exponent_def pq)
  next
    case True
    have shift: "?e - 1 = (bitlen p - 1) - bitlen q"
      by simp
    have "(2::rat) powi (?e - 1) = 2 powi (bitlen p - 1) / 2 powi bitlen q"
      unfolding shift by (rule power_int_diff) simp
    also have "\<dots> \<le> of_int p / 2 powi bitlen q"
      using bitlen_powi(1) [OF p] by (simp add: divide_right_mono)
    also have "\<dots> \<le> of_int p / of_int q"
      using bitlen_powi(2) [OF q] p q by (intro divide_left_mono) (simp_all add: less_imp_le)
    finally have "(2::rat) powi (?e - 1) \<le> of_int p / of_int q" .
    then have low: "(2::rat) powi (?e - 1) \<le> x"
      by (simp only: x)
    have "exponent x = ?e - 1"
      using True by (simp add: exponent_def pq)
    with low show ?thesis
      by simp
  qed
qed

lemma nearest_double_error:
  assumes "0 < x"
  shows "\<bar>nearest_double x - x\<bar> \<le> x / 2 ^ 53"
proof -
  let ?q = "(2::rat) powi (exponent x - 52)"
  have qpos: "0 < ?q"
    by simp
  have q52: "?q * 2 ^ 52 = 2 powi exponent x"
    by (simp add: power_int_diff)
  have "nearest_double x - x = (of_int (round_half_even (x / ?q)) - x / ?q) * ?q"
    using qpos by (simp add: nearest_double_def Let_def algebra_simps)
  then have "\<bar>nearest_double x - x\<bar> = \<bar>of_int (round_half_even (x / ?q)) - x / ?q\<bar> * ?q"
    using qpos by (simp add: abs_mult)
  also have "\<dots> \<le> (1 / 2) * ?q"
    using round_half_even_error [of "x / ?q"] qpos by (intro mult_right_mono) simp_all
  also have "\<dots> = 2 powi exponent x / 2 ^ 53"
    using q52 [symmetric] by simp
  also have "\<dots> \<le> x / 2 ^ 53"
    using exponent_le [OF assms] by (simp add: divide_right_mono)
  finally show ?thesis .
qed

lemma double_error: "0 \<le> x \<Longrightarrow> \<bar>double x - x\<bar> \<le> x / 2 ^ 53"
  using nearest_double_error [of x] by (auto simp: double_def)

lemma double_nonneg: "0 \<le> x \<Longrightarrow> 0 \<le> double x"
proof -
  assume "0 \<le> x"
  moreover have "0 \<le> nearest_double x" if "0 < x"
    using that round_half_even_nonneg [of "x / 2 powi (exponent x - 52)"]
    by (simp add: nearest_double_def Let_def)
  ultimately show ?thesis
    by (auto simp: double_def)
qed

lemma double_positive_iff: "0 < double x \<longleftrightarrow> 0 < x"
proof
  show "0 < x" if "0 < double x"
    using that double_nonneg [of "- x"] by (cases "x = 0"; cases "0 < x") (auto simp: double_def)
  show "0 < double x" if "0 < x"
  proof -
    have "\<bar>double x - x\<bar> \<le> x / 2 ^ 53"
      using that by (intro double_error) simp
    then have "x - x / 2 ^ 53 \<le> double x"
      by linarith
    moreover have "0 < x - x / 2 ^ 53"
      using that by simp
    ultimately show ?thesis
      by linarith
  qed
qed

lemma float_product_error:
  assumes "0 \<le> f"
  shows "\<bar>double (double f * double (of_nat n)) - f * of_nat n\<bar> \<le> 4 * (f * of_nat n) / 2 ^ 53"
proof -
  define \<epsilon> :: rat where "\<epsilon> = 1 / 2 ^ 53"
  define N :: rat where "N = of_nat n"
  define f' where "f' = double f"
  define N' where "N' = double N"
  define t where "t = double (f' * N')"
  have N: "0 \<le> N" by (simp add: N_def)
  have eps: "0 \<le> \<epsilon>" "\<epsilon> \<le> 1 / 4" by (simp_all add: \<epsilon>_def)
  have f': "0 \<le> f'" "\<bar>f' - f\<bar> \<le> f * \<epsilon>"
    using double_nonneg [OF assms] double_error [OF assms] by (simp_all add: f'_def \<epsilon>_def)
  have N': "0 \<le> N'" "\<bar>N' - N\<bar> \<le> N * \<epsilon>"
    using double_nonneg [OF N] double_error [OF N] by (simp_all add: N'_def \<epsilon>_def)
  have x': "0 \<le> f' * N'"
    using f'(1) N'(1) by simp
  have t: "\<bar>t - f' * N'\<bar> \<le> f' * N' * \<epsilon>"
    using double_error [OF x'] by (simp add: t_def \<epsilon>_def)
  have fu: "f' \<le> f * (1 + \<epsilon>)" and Nu: "N' \<le> N * (1 + \<epsilon>)"
    using f'(2) N'(2) by (simp_all add: algebra_simps abs_le_iff)
  have "f' * N' - f * N = (f' - f) * N' + f * (N' - N)"
    by (simp add: algebra_simps)
  then have "\<bar>f' * N' - f * N\<bar> \<le> \<bar>f' - f\<bar> * N' + f * \<bar>N' - N\<bar>"
    using N'(1) assms by (simp add: abs_mult) (metis abs_mult abs_of_nonneg abs_triangle_ineq)
  also have "\<dots> \<le> (f * \<epsilon>) * (N * (1 + \<epsilon>)) + f * (N * \<epsilon>)"
    using f'(2) N'(2) Nu assms N eps N'(1)
    by (intro add_mono mult_mono mult_left_mono) simp_all
  finally have prod: "\<bar>f' * N' - f * N\<bar> \<le> f * N * (\<epsilon> * (2 + \<epsilon>))"
    by (simp add: algebra_simps)
  have "f' * N' \<le> (f * (1 + \<epsilon>)) * (N * (1 + \<epsilon>))"
    using fu Nu f'(1) N'(1) assms N eps by (intro mult_mono) simp_all
  then have "f' * N' * \<epsilon> \<le> (f * (1 + \<epsilon>)) * (N * (1 + \<epsilon>)) * \<epsilon>"
    using eps(1) by (rule mult_right_mono)
  with t have round: "\<bar>t - f' * N'\<bar> \<le> f * N * ((1 + \<epsilon>) * (1 + \<epsilon>) * \<epsilon>)"
    by (simp add: algebra_simps)
  have "\<bar>t - f * N\<bar> \<le> \<bar>t - f' * N'\<bar> + \<bar>f' * N' - f * N\<bar>"
    by simp
  also have "\<dots> \<le> f * N * ((1 + \<epsilon>) * (1 + \<epsilon>) * \<epsilon>) + f * N * (\<epsilon> * (2 + \<epsilon>))"
    using round prod by (rule add_mono)
  also have "\<dots> = f * N * (\<epsilon> * ((1 + \<epsilon>) * (1 + \<epsilon>) + 2 + \<epsilon>))"
    by (simp add: algebra_simps)
  also have "\<dots> \<le> f * N * (\<epsilon> * 4)"
  proof -
    have "(1 + \<epsilon>) * (1 + \<epsilon>) + 2 + \<epsilon> \<le> 4"
      by (simp add: \<epsilon>_def)
    then show ?thesis
      using assms N eps(1) by (intro mult_left_mono) simp_all
  qed
  finally show ?thesis
    by (simp add: t_def f'_def N'_def N_def \<epsilon>_def)
qed


lemma double_below_one:
  assumes "0 \<le> f" "double f < 1"
  shows "f \<le> 2"
proof -
  have "\<bar>double f - f\<bar> \<le> f / 2 ^ 53"
    by (rule double_error [OF assms(1)])
  then have "f - f / 2 ^ 53 \<le> double f"
    by linarith
  then have "f - f / 2 ^ 53 < 1"
    using assms(2) by linarith
  then show ?thesis
    by simp
qed

lemma float_product_nonneg:
  assumes "0 \<le> double f"
  shows "0 \<le> \<lceil>double (double f * double (of_nat n))\<rceil>"
proof -
  have "0 \<le> double (of_nat n)"
    by (rule double_nonneg) simp
  then have "0 \<le> double (double f * double (of_nat n))"
    using assms by (intro double_nonneg) simp
  then have "- 1 < double (double f * double (of_nat n))"
    by linarith
  then show ?thesis
    unfolding zero_le_ceiling .
qed

lemma float_product_positive:
  assumes "0 < double f" "0 < n"
  shows "0 < \<lceil>double (double f * double (of_nat n))\<rceil>"
proof -
  have "0 < double (of_nat n)"
    using assms(2) by (simp add: double_positive_iff)
  then have "0 < double f * double (of_nat n)"
    using assms(1) by simp
  then have "0 < double (double f * double (of_nat n))"
    by (simp only: double_positive_iff)
  then show ?thesis
    unfolding zero_less_ceiling .
qed

lemma float_ceiling_near_round:
  assumes "0 \<le> f" "double f < 1" "n \<le> 2 ^ 48"
  shows "\<lceil>double (double f * double (of_nat n))\<rceil> - round (f * of_nat n) \<in> {0, 1}"
proof -
  define x where "x = f * of_nat n"
  define t where "t = double (double f * double (of_nat n))"
  have "(of_nat n :: rat) \<le> of_nat (2 ^ 48)"
    using assms(3) unfolding of_nat_le_iff .
  then have n: "(of_nat n :: rat) \<le> 2 ^ 48"
    by simp
  have "x \<le> 2 * 2 ^ 48"
    unfolding x_def using double_below_one [OF assms(1,2)] n assms(1) by (intro mult_mono) simp_all
  moreover have "\<bar>t - x\<bar> \<le> 4 * x / 2 ^ 53"
    unfolding t_def x_def by (rule float_product_error [OF assms(1)])
  ultimately have "\<bar>t - x\<bar> \<le> 1 / 4"
    by simp
  then have near: "x - 1 / 4 \<le> t" "t \<le> x + 1 / 4"
    by linarith+
  have c: "of_int \<lceil>t\<rceil> - 1 < t" "t \<le> of_int \<lceil>t\<rceil>"
    by linarith+
  have r: "of_int (round x) \<le> x + 1 / 2" "x + 1 / 2 < of_int (round x) + 1"
    unfolding round_def by linarith+
  have "(of_int \<lceil>t\<rceil> :: rat) < of_int (round x) + 2"
    using c(1) r(2) near(2) by linarith
  then have "(of_int \<lceil>t\<rceil> :: rat) < of_int (round x + 2)"
    by simp
  then have up: "\<lceil>t\<rceil> < round x + 2"
    unfolding of_int_less_iff .
  have "(of_int (round x) :: rat) < of_int \<lceil>t\<rceil> + 1"
    using c(2) r(1) near(1) by linarith
  then have "(of_int (round x) :: rat) < of_int (\<lceil>t\<rceil> + 1)"
    by simp
  then have low: "round x < \<lceil>t\<rceil> + 1"
    unfolding of_int_less_iff .
  show ?thesis
    using up low by (auto simp: t_def x_def)
qed

lemma default_fraction_is_valid: "0 < double (3 / 10) \<and> double (3 / 10) < 1"
  by code_simp

lemma default_split_has_room:
  assumes "2 \<le> n"
  shows "\<lceil>double (double (3 / 10) * double (of_nat n))\<rceil> < int n"
proof -
  define x :: rat where "x = 3 / 10 * of_nat n"
  define t where "t = double (double (3 / 10) * double (of_nat n))"
  have "(of_nat 2 :: rat) \<le> of_nat n"
    using assms unfolding of_nat_le_iff .
  then have n: "(2 :: rat) \<le> of_nat n"
    by simp
  have "\<bar>t - x\<bar> \<le> 4 * x / 2 ^ 53"
    unfolding t_def x_def by (rule float_product_error) simp
  then have "t \<le> x + 4 * x / 2 ^ 53"
    by linarith
  moreover have "x + 4 * x / 2 ^ 53 \<le> of_nat n / 2"
    by (simp add: x_def)
  ultimately have "t + 1 \<le> of_nat n"
    using n by linarith
  moreover have "of_int \<lceil>t\<rceil> < t + 1"
    by linarith
  ultimately have "(of_int \<lceil>t\<rceil> :: rat) < of_int (int n)"
    by simp
  then show ?thesis
    unfolding of_int_less_iff t_def .
qed

text \<open>The product is a float product: \<open>0.28 * 25\<close> is a float above 7, and 8 rows are held
  out of 25, where the exact product would give 7; the float \<open>0.1\<close> is above a tenth, and
  1 row is held out of 10, where the exact product with that float would give 2.\<close>

lemma float_product_example:
  "\<lceil>double (double (28 / 100) * double 25)\<rceil> = 8 \<and> \<lceil>(28 / 100 :: rat) * 25\<rceil> = 7"
  by code_simp

lemma float_tenth_example:
  "double (1 / 10) = 3602879701896397 / 36028797018963968
   \<and> \<lceil>double (double (1 / 10) * double 10)\<rceil> = 1
   \<and> \<lceil>double (1 / 10) * 10\<rceil> = 2"
  by code_simp

subsection \<open>The splitting stage\<close>

lemma drop_column_index:
  "drop_column name df = Inr df' \<Longrightarrow> index df' = index df"
  by (auto simp: drop_column_def index_def comp_def split: option.splits)

lemma drop_each_index: "drop_each names df = Inr df' \<Longrightarrow> index df' = index df"
proof (induction names arbitrary: df)
  case Nil
  then show ?case by simp
next
  case (Cons name names)
  then show ?case
    by (auto simp: drop_column_index split: sum.splits)
qed

lemma length_index: "length (index df) = length (rows df)"
  by (simp add: index_def)

lemma drop_class_content:
  "(\<exists>x. drop_each [''CLASS'', ''CONTENT''] data = Inr x)
     \<longleftrightarrow> ''CLASS'' \<in> set (columns data) \<and> ''CONTENT'' \<in> set (columns data)"
  by (auto simp: drop_column_def column_pos_def cut_remove1 split: sum.splits if_splits)

lemma split_partition:
  assumes "mset perm = mset [0 ..< length xs]"
  shows "mset (map ((!) xs) (drop k perm)) + mset (map ((!) xs) (take k perm)) = mset xs"
proof -
  have "mset (map ((!) xs) (drop k perm)) + mset (map ((!) xs) (take k perm))
      = mset (map ((!) xs) (take k perm @ drop k perm))"
    by (simp del: append_take_drop_id)
  also have "\<dots> = image_mset ((!) xs) (mset perm)"
    by simp
  also have "\<dots> = mset (map ((!) xs) [0 ..< length xs])"
    by (simp add: assms(1))
  also have "\<dots> = mset xs"
    by (simp add: map_nth)
  finally show ?thesis .
qed

lemma map_fst_nth_zip:
  "length ks = length vs \<Longrightarrow> list_all (\<lambda>i. i < length ks) ps \<Longrightarrow>
   map fst (map ((!) (zip ks vs)) ps) = map ((!) ks) ps"
  by (induction ps) auto

lemma map_nth_positions:
  "list_all (\<lambda>i. i < length xs) ps \<Longrightarrow> map f (map ((!) xs) ps) = map ((!) (map f xs)) ps"
  by (induction ps) auto

lemma permutation_in_range:
  assumes "mset perm = mset [0 ..< n]"
  shows "list_all (\<lambda>i. i < n) (take k perm)" and "list_all (\<lambda>i. i < n) (drop k perm)"
proof -
  have "set perm = {0 ..< n}"
    using mset_eq_setD [OF assms] by simp
  then have *: "\<And>i. i \<in> set perm \<Longrightarrow> i < n"
    by auto
  show "list_all (\<lambda>i. i < n) (take k perm)"
    using * by (auto simp: list_all_iff dest: in_set_takeD)
  show "list_all (\<lambda>i. i < n) (drop k perm)"
    using * by (auto simp: list_all_iff dest!: in_set_dropD)
qed

text \<open>What a call with a held-out fraction returns, and when.\<close>

lemma train_test_splitting_run:
  assumes gen: "\<forall>g n. mset (fst (permutation gen g n)) = mset [0 ..< n]"
    and cols: "''CLASS'' \<in> set (columns data)" "''CONTENT'' \<in> set (columns data)"
    and valid: "0 < double f" "double f < 1"
    and room: "\<lceil>double (double f * double (of_nat (length (rows data))))\<rceil> < int (length (rows data))"
  obtains x labels perm k where
    "drop_each [''CLASS'', ''CONTENT''] data = Inr x" "getitem data ''CLASS'' = Inr labels"
    "mset perm = mset [0 ..< length (rows data)]"
    "int k = \<lceil>double (double f * double (of_nat (length (rows data))))\<rceil>"
    "train_test_splitting gen global data (Fraction f)
       = (Inr (x\<lparr>rows := map ((!) (rows x)) (drop k perm)\<rparr>, x\<lparr>rows := map ((!) (rows x)) (take k perm)\<rparr>,
               map ((!) (zip (index data) labels)) (drop k perm),
               map ((!) (zip (index data) labels)) (take k perm)), global)"
proof -
  from cols obtain x where x: "drop_each [''CLASS'', ''CONTENT''] data = Inr x"
    using drop_class_content [of data] by blast
  from cols(1) obtain labels where labels: "getitem data ''CLASS'' = Inr labels"
    by (simp add: getitem_iff)
  let ?y = "zip (index data) labels"
  let ?n = "length (rows data)"
  define T where "T = \<lceil>double (double f * double (of_nat ?n))\<rceil>"
  define perm where "perm = fst (permutation gen (seeded gen 42) ?n)"
  define k where "k = nat T"
  have "0 \<le> T" "T < int ?n"
    using float_product_nonneg [of f ?n] valid(1) room by (simp_all add: T_def)
  then have "0 < ?n"
    by arith
  then have T: "0 < T" "T < int ?n"
    using float_product_positive [OF valid(1), of ?n] room by (simp_all add: T_def)
  have k: "int k = T"
    using T(1) by (simp add: k_def)
  have kn: "k \<le> ?n"
    using T(2) k by simp
  have n: "length (rows x) = ?n"
    using drop_each_index [OF x] length_index [of x] length_index [of data] by simp
  have leny: "length ?y = ?n"
    using getitem_length [OF labels] by (simp add: length_index)
  have sizes: "validate_shuffle_split ?n (Fraction f) None = Inr (int ?n - T, T)"
    using valid T(2) by (simp add: validate_shuffle_split_def Let_def T_def)
  have again: "validate_shuffle_split ?n (Count T) (Some (int ?n - T)) = Inr (int ?n - T, T)"
    using T by (simp add: validate_shuffle_split_def Let_def)
  have mperm: "mset perm = mset [0 ..< ?n]"
    using gen by (simp add: perm_def)
  have lperm: "length perm = ?n"
    using mperm mset_eq_length by fastforce
  have range: "list_all (\<lambda>i. i < ?n) (take k perm)" "list_all (\<lambda>i. i < ?n) (drop k perm)"
    using permutation_in_range [OF mperm] by simp_all
  have split: "train_test_split gen global x ?y (Fraction f) (Some 42)
       = (Inr (x\<lparr>rows := map ((!) (rows x)) (drop k perm)\<rparr>, x\<lparr>rows := map ((!) (rows x)) (take k perm)\<rparr>,
               map ((!) ?y) (drop k perm), map ((!) ?y) (take k perm)), global)"
    using range
    by (simp add: train_test_split_def n leny sizes again shuffled_def perm_def [symmetric] lperm
        k_def [symmetric] take_rows_def Let_def del: length_zip)
  have "train_test_splitting gen global data (Fraction f)
       = (Inr (x\<lparr>rows := map ((!) (rows x)) (drop k perm)\<rparr>, x\<lparr>rows := map ((!) (rows x)) (take k perm)\<rparr>,
               map ((!) ?y) (drop k perm), map ((!) ?y) (take k perm)), global)"
    by (simp only: train_test_splitting_def x labels sum.case split)
  then show thesis
    using that [OF x labels mperm] k by (simp add: T_def)
qed

lemma train_test_split_Inr:
  assumes "train_test_split gen global x y test_size random_state = (Inr result, global')"
  obtains a b c d where
    "validate_shuffle_split (length (rows x)) test_size None = Inr (a, b)"
    "validate_shuffle_split (length (rows x)) (Count b) (Some a) = Inr (c, d)"
  using assms unfolding train_test_split_def by (auto split: if_splits sum.splits)

lemma train_test_splitting_returns_only_if:
  assumes "train_test_splitting gen global data (Fraction f) = (Inr result, global')"
  shows "''CLASS'' \<in> set (columns data) \<and> ''CONTENT'' \<in> set (columns data)
       \<and> 0 < double f \<and> double f < 1
       \<and> \<lceil>double (double f * double (of_nat (length (rows data))))\<rceil> < int (length (rows data))"
proof -
  from assms obtain x labels where
    x: "drop_each [''CLASS'', ''CONTENT''] data = Inr x" and
    split: "train_test_split gen global x (zip (index data) labels) (Fraction f) (Some 42)
       = (Inr result, global')"
    by (auto simp: train_test_splitting_def split: sum.splits)
  have n: "length (rows x) = length (rows data)"
    using drop_each_index [OF x] length_index [of x] length_index [of data] by simp
  let ?n = "length (rows data)"
  let ?T = "\<lceil>double (double f * double (of_nat ?n))\<rceil>"
  from split obtain a b c d where
    first: "validate_shuffle_split ?n (Fraction f) None = Inr (a, b)"
    and "validate_shuffle_split ?n (Count b) (Some a) = Inr (c, d)"
    unfolding n [symmetric] by (rule train_test_split_Inr)
  from first have valid: "0 < double f \<and> double f < 1" and ab: "a = int ?n - ?T" "b = ?T"
    by (auto simp: validate_shuffle_split_def Let_def split: if_splits)
  from \<open>validate_shuffle_split ?n (Count b) (Some a) = Inr (c, d)\<close>
have "0 < a"
    by (auto simp: validate_shuffle_split_def Let_def split: if_splits)
  then have "0 < double f \<and> double f < 1 \<and> ?T < int ?n"
    using valid ab by simp
  then show ?thesis
    using x drop_class_content [of data] by blast
qed

text \<open>With the default fraction the call returns on every table of two rows or more that
  has the two columns.\<close>

lemma default_split_returns:
  assumes "\<forall>g n. mset (fst (permutation gen g n)) = mset [0 ..< n]"
    and "''CLASS'' \<in> set (columns data)" "''CONTENT'' \<in> set (columns data)"
    and "2 \<le> length (rows data)"
  shows "\<exists>result. train_test_splitting gen global data default_test_size = (Inr result, global)"
proof -
  note v = default_fraction_is_valid
  show ?thesis
  proof (rule train_test_splitting_run [OF assms(1,2,3) conjunct1 [OF v] conjunct2 [OF v]
        default_split_has_room [OF assms(4)], of global])
    fix x labels perm k
    assume "train_test_splitting gen global data (Fraction (3 / 10))
       = (Inr (x\<lparr>rows := map ((!) (rows x)) (drop k perm)\<rparr>, x\<lparr>rows := map ((!) (rows x)) (take k perm)\<rparr>,
               map ((!) (zip (index data) labels)) (drop k perm),
               map ((!) (zip (index data) labels)) (take k perm)), global)"
    then show ?thesis
      by (simp add: default_test_size_def)
  qed
qed

lemma mset_rotate1_eq: "mset (rotate1 xs) = mset xs"
  by (cases xs) simp_all

lemma mset_rotate_eq: "mset (rotate k xs) = mset xs"
  by (induction k) (simp_all add: mset_rotate1_eq)

lemma rotating_permutes: "\<forall>g n. mset (fst (permutation rotating g n)) = mset [0 ..< n]"
  by (simp add: rotating_def mset_rotate_eq del: mset_upt)

text \<open>Without the seed, two calls that find the process-wide generator in different states
  can split differently.\<close>

lemma unseeded_split_depends_on_state:
  "fst (train_test_split rotating 7 sample_cleaned [(0, Num 1), (1, Num 0), (2, Num 0)] default_test_size None)
   \<noteq> fst (train_test_split rotating 8 sample_cleaned [(0, Num 1), (1, Num 0), (2, Num 0)] default_test_size None)"
  by code_simp

section \<open>The properties\<close>

subsection \<open>The cleaning stage\<close>




text \<open>
  C3.  The codes of \<open>AUTHOR\<close> and of \<open>VIDEO_NAME\<close> are dense and assigned by sorted
  order, each column on its own: a value's code is the number of distinct values of
  its column, among the rows that survive the cleaning, that are smaller than it.
\<close>

theorem encoding_by_rank:
  assumes "wf_frame data" and "data_cleaning_encoding data = (None, out)"
    and "getitem (drop_duplicates (dropna data)) ''AUTHOR'' = Inr ca" and "texts ca = Some authors"
    and "getitem (drop_duplicates (dropna data)) ''VIDEO_NAME'' = Inr cv" and "texts cv = Some videos"
  shows "getitem out ''AUTHOR'' = Inr (map (\<lambda>x. Num (int (rank authors x))) authors)
       \<and> getitem out ''VIDEO_NAME'' = Inr (map (\<lambda>x. Num (int (rank videos x))) videos)"
proof -
  let ?pre = "drop_duplicates (dropna data)"
  from assms(2) obtain a v d e where
    a: "encode_column ''AUTHOR'' ?pre = Inr a"
    and v: "encode_column ''VIDEO_NAME'' a = Inr v"
    and d: "drop_column ''DATE'' v = Inr d"
    and e: "drop_column ''COMMENT_ID'' d = Inr e"
    and out: "out = reset_index e"
    by (rule data_cleaning_encoding_steps)
  have wfp: "wf_frame ?pre" by (rule wf_prepared [OF assms(1)])
  have wfa: "wf_frame a" by (rule encode_column_frame(1) [OF wfp a])
  have wfv: "wf_frame v" by (rule encode_column_frame(1) [OF wfa v])
  have wfd: "wf_frame d" by (rule drop_column_frame(1) [OF wfv d])
  from a obtain col codes where
    "getitem ?pre ''AUTHOR'' = Inr col" "fit_transform col = Inr codes" "a = setitem ?pre ''AUTHOR'' codes"
    "''AUTHOR'' \<in> set (columns ?pre)" "length codes = length (rows ?pre)"
    by (rule encode_column_Inr)
  then have "getitem a ''AUTHOR'' = Inr (encode authors)"
    using assms(3,4) by (simp add: getitem_setitem [OF wfp] fit_transform_texts)
  then have author: "getitem out ''AUTHOR'' = Inr (encode authors)"
    by (simp add: out getitem_reset_index drop_column_frame(3) [OF wfd e]
        drop_column_frame(3) [OF wfv d] encode_column_frame(3) [OF wfa v])
  have cv: "getitem a ''VIDEO_NAME'' = Inr cv"
    using assms(5) by (simp add: encode_column_frame(3) [OF wfp a])
  from v obtain col2 codes2 where
    "getitem a ''VIDEO_NAME'' = Inr col2" "fit_transform col2 = Inr codes2" "v = setitem a ''VIDEO_NAME'' codes2"
    "''VIDEO_NAME'' \<in> set (columns a)" "length codes2 = length (rows a)"
    by (rule encode_column_Inr)
  then have "getitem v ''VIDEO_NAME'' = Inr (encode videos)"
    using cv assms(6) by (simp add: getitem_setitem [OF wfa] fit_transform_texts)
  then have video: "getitem out ''VIDEO_NAME'' = Inr (encode videos)"
    by (simp add: out getitem_reset_index drop_column_frame(3) [OF wfd e]
        drop_column_frame(3) [OF wfv d])
  show ?thesis
    using author video by (simp add: encode_rank)
qed

theorem encoding_by_rank_witness:
  "wf_frame sample_comments
   \<and> data_cleaning_encoding sample_comments = (None, sample_cleaned)
   \<and> getitem (drop_duplicates (dropna sample_comments)) ''AUTHOR''
       = Inr [Str ''bob'', Str ''alice'', Str ''alice'']
   \<and> texts [Str ''bob'', Str ''alice'', Str ''alice''] = Some [''bob'', ''alice'', ''alice'']
   \<and> getitem (drop_duplicates (dropna sample_comments)) ''VIDEO_NAME''
       = Inr [Str ''v2'', Str ''v1'', Str ''v1'']
   \<and> texts [Str ''v2'', Str ''v1'', Str ''v1''] = Some [''v2'', ''v1'', ''v1'']
   \<and> getitem sample_cleaned ''AUTHOR''
       = Inr (map (\<lambda>x. Num (int (rank [''bob'', ''alice'', ''alice''] x))) [''bob'', ''alice'', ''alice''])
   \<and> getitem sample_cleaned ''VIDEO_NAME''
       = Inr (map (\<lambda>x. Num (int (rank [''v2'', ''v1'', ''v1''] x))) [''v2'', ''v1'', ''v1''])"
proof -
  have wf: "wf_frame sample_comments"
    by code_simp
  have run: "data_cleaning_encoding sample_comments = (None, sample_cleaned)"
    by code_simp
  have ca: "getitem (drop_duplicates (dropna sample_comments)) ''AUTHOR''
              = Inr [Str ''bob'', Str ''alice'', Str ''alice'']"
    by code_simp
  have ta: "texts [Str ''bob'', Str ''alice'', Str ''alice''] = Some [''bob'', ''alice'', ''alice'']"
    by simp
  have cv: "getitem (drop_duplicates (dropna sample_comments)) ''VIDEO_NAME''
              = Inr [Str ''v2'', Str ''v1'', Str ''v1'']"
    by code_simp
  have tv: "texts [Str ''v2'', Str ''v1'', Str ''v1''] = Some [''v2'', ''v1'', ''v1'']"
    by simp
  show ?thesis
    using wf run ca ta cv tv encoding_by_rank [OF wf run ca ta cv tv] by blast
qed

text \<open>
  In the sample table \<open>bob\<close> is the first author from the top and \<open>alice\<close> the second;
  coding by first appearance would give \<open>bob\<close> 0 and \<open>alice\<close> 1, the code gives \<open>bob\<close> 1
  and \<open>alice\<close> 0.
\<close>

theorem encoding_first_seen_counterexample:
  "getitem (drop_duplicates (dropna sample_comments)) ''AUTHOR''
     = Inr [Str ''bob'', Str ''alice'', Str ''alice'']
   \<and> first_seen_codes [''bob'', ''alice'', ''alice''] = [Num 0, Num 1, Num 1]
   \<and> getitem (snd (data_cleaning_encoding sample_comments)) ''AUTHOR'' = Inr [Num 1, Num 0, Num 0]"
  by code_simp

text \<open>
  C4.  Applying \<open>data_cleaning_encoding\<close> to a table it has returned does not succeed:
  the first pass removed the \<open>DATE\<close> column, and the second pass raises the key error
  for \<open>DATE\<close> when it comes to drop it.
\<close>

theorem cleaning_twice_fails:
  assumes "wf_frame data" and "data_cleaning_encoding data = (None, out)"
  shows "fst (data_cleaning_encoding out) = Some (KeyError ''DATE'')"
proof -
  let ?pre = "drop_duplicates (dropna data)"
  from assms(2) obtain a v d e where
    a: "encode_column ''AUTHOR'' ?pre = Inr a"
    and v: "encode_column ''VIDEO_NAME'' a = Inr v"
    and d: "drop_column ''DATE'' v = Inr d"
    and e: "drop_column ''COMMENT_ID'' d = Inr e"
    and out: "out = reset_index e"
    by (rule data_cleaning_encoding_steps)
  have wfp: "wf_frame ?pre" by (rule wf_prepared [OF assms(1)])
  have wfa: "wf_frame a" by (rule encode_column_frame(1) [OF wfp a])
  have wfv: "wf_frame v" by (rule encode_column_frame(1) [OF wfa v])
  have wfd: "wf_frame d" by (rule drop_column_frame(1) [OF wfv d])
  have wfe: "wf_frame e" by (rule drop_column_frame(1) [OF wfd e])
  have wfo: "wf_frame out" by (simp add: out wf_reset_index wfe)
  have no_date: "''DATE'' \<notin> set (columns out)"
    using drop_column_frame(2) [OF wfv d] notin_set_remove1 [of "''DATE''" "columns d" "''COMMENT_ID''"]
    by (simp add: out reset_index_def drop_column_Inr(2) [OF e])
  obtain ca where ca: "getitem out ''AUTHOR'' = Inr ca" "list_all is_num ca"
    using encode_column_frame(4) [OF wfp a]
    by (auto simp: out getitem_reset_index drop_column_frame(3) [OF wfd e]
        drop_column_frame(3) [OF wfv d] encode_column_frame(3) [OF wfa v])
  obtain cv where cv: "getitem out ''VIDEO_NAME'' = Inr cv" "list_all is_num cv"
    using encode_column_frame(4) [OF wfa v]
    by (auto simp: out getitem_reset_index drop_column_frame(3) [OF wfd e]
        drop_column_frame(3) [OF wfv d])
  let ?pre2 = "drop_duplicates (dropna out)"
  have wfp2: "wf_frame ?pre2" by (rule wf_prepared [OF wfo])
  obtain ca2 where "getitem ?pre2 ''AUTHOR'' = Inr ca2" "list_all is_num ca2"
    using getitem_subframe [OF prepared_subframe ca] by blast
  then obtain a2 where a2: "encode_column ''AUTHOR'' ?pre2 = Inr a2"
    using encode_column_numeric by blast
  obtain cv2 where "getitem ?pre2 ''VIDEO_NAME'' = Inr cv2" "list_all is_num cv2"
    using getitem_subframe [OF prepared_subframe cv] by blast
  then have "getitem a2 ''VIDEO_NAME'' = Inr cv2"
    by (simp add: encode_column_frame(3) [OF wfp2 a2])
  then obtain v2 where v2: "encode_column ''VIDEO_NAME'' a2 = Inr v2"
    using encode_column_numeric \<open>list_all is_num cv2\<close> by blast
  have "columns v2 = columns out"
    by (simp add: encode_column_frame(2) [OF encode_column_frame(1) [OF wfp2 a2] v2]
        encode_column_frame(2) [OF wfp2 a2] prepared_subframe(1))
  then have "drop_column ''DATE'' v2 = Inl (KeyError ''DATE'')"
    using no_date by (simp add: drop_column_KeyError)
  then show ?thesis
    by (simp add: data_cleaning_encoding_def run_stmt_def remove_null_rows_eq
        remove_duplicate_rows_eq a2 v2)
qed

theorem cleaning_twice_fails_witness:
  "wf_frame sample_comments
   \<and> data_cleaning_encoding sample_comments = (None, sample_cleaned)
   \<and> fst (data_cleaning_encoding sample_cleaned) = Some (KeyError ''DATE'')"
proof -
  have wf: "wf_frame sample_comments"
    by code_simp
  have run: "data_cleaning_encoding sample_comments = (None, sample_cleaned)"
    by code_simp
  show ?thesis
    using wf run cleaning_twice_fails [OF wf run] by blast
qed

text \<open>
  On the cleaned sample table the second pass raises, and by then it has removed a
  row in place: the two rows that the first pass left equal.
\<close>

theorem cleaning_twice_counterexample:
  "data_cleaning_encoding sample_comments = (None, sample_cleaned)
   \<and> fst (data_cleaning_encoding sample_cleaned) = Some (KeyError ''DATE'')
   \<and> length (rows sample_cleaned) = 3
   \<and> length (rows (snd (data_cleaning_encoding sample_cleaned))) = 2"
  by code_simp

subsection \<open>The vectorizing stage\<close>

text \<open>
  C5.  Whenever \<open>vectorizing\<close> returns a table, that table has exactly the row count of
  the table it was given; its columns are the given columns followed by the vocabulary,
  one column for each distinct term that the analyzer finds in the \<open>CONTENT\<close> texts, in
  strictly ascending lexical order; and every row is the given row followed by, for
  each term, the number of times the term occurs in that row's text, a natural number.
\<close>

theorem vectorizing_result:
  assumes "vectorizing analyzer cleaned = (Inr combined, cleaned')"
  shows "\<exists>feature docs vocabulary.
           getitem cleaned ''CONTENT'' = Inr feature \<and> texts feature = Some docs
         \<and> length (rows combined) = length (rows cleaned)
         \<and> index combined = [0 ..< length (rows cleaned)]
         \<and> columns combined = columns cleaned @ vocabulary
         \<and> sorted vocabulary \<and> distinct vocabulary
         \<and> set vocabulary = (\<Union>doc \<in> set docs. set (analyzer doc))
         \<and> cells combined =
             map2 (\<lambda>r doc. r @ map (\<lambda>term. Num (int (count_list (analyzer doc) term))) vocabulary)
               (cells cleaned) docs"
proof -
  from assms obtain feature docs where
    feature: "getitem cleaned ''CONTENT'' = Inr feature" and docs: "documents (list_ex is_text feature) feature = Inr docs"
    and combined: "combined = concat_columns (reset_index cleaned)
       (reset_index (DataFrame
          (map (\<lambda>doc. map (\<lambda>term. count_list (analyzer doc) term) (classes (concat (map analyzer docs)))) docs)
          (classes (concat (map analyzer docs)))))"
    by (rule vectorizing_Inr)
  let ?vocabulary = "classes (concat (map analyzer docs))"
  let ?array = "map (\<lambda>doc. map (\<lambda>term. count_list (analyzer doc) term) ?vocabulary) docs"
  have len: "length docs = length (rows cleaned)"
    using documents_Inr [OF docs] getitem_length [OF feature] by simp
  have same: "length (rows (reset_index cleaned)) = length (rows (reset_index (DataFrame ?array ?vocabulary)))"
    by (simp add: length_rows_reset_index DataFrame_frame(2) len)
  have "texts feature = Some docs"
    using documents_Inr [OF docs] by simp
  moreover have "length (rows combined) = length (rows cleaned)"
    using len by (simp add: combined concat_columns_def length_rows_reset_index DataFrame_frame(2))
  moreover have "index combined = [0 ..< length (rows cleaned)]"
    by (simp add: combined index_concat_columns [OF same] index_reset_index)
  moreover have "columns combined = columns cleaned @ ?vocabulary"
    by (simp add: combined concat_columns_def reset_index_def DataFrame_def)
  moreover have "sorted ?vocabulary" "distinct ?vocabulary"
    by (simp_all add: classes_sorted_distinct)
  moreover have "set ?vocabulary = (\<Union>doc \<in> set docs. set (analyzer doc))"
    by (simp add: classes_sorted_distinct(3))
  moreover have "cells combined =
      map2 (\<lambda>r doc. r @ map (\<lambda>term. Num (int (count_list (analyzer doc) term))) ?vocabulary)
        (cells cleaned) docs"
    by (simp add: combined cells_concat_columns cells_reset_index DataFrame_frame(3)
        zip_map2 comp_def case_prod_unfold)
  ultimately show ?thesis
    using feature by blast
qed

theorem vectorizing_result_witness:
  "vectorizing ascii_analyzer sample_cleaned = (Inr sample_combined, sample_cleaned)
   \<and> (\<exists>feature docs vocabulary.
           getitem sample_cleaned ''CONTENT'' = Inr feature \<and> texts feature = Some docs
         \<and> length (rows sample_combined) = length (rows sample_cleaned)
         \<and> index sample_combined = [0 ..< length (rows sample_cleaned)]
         \<and> columns sample_combined = columns sample_cleaned @ vocabulary
         \<and> sorted vocabulary \<and> distinct vocabulary
         \<and> set vocabulary = (\<Union>doc \<in> set docs. set (ascii_analyzer doc))
         \<and> cells sample_combined =
             map2 (\<lambda>r doc. r @ map (\<lambda>term. Num (int (count_list (ascii_analyzer doc) term))) vocabulary)
               (cells sample_cleaned) docs)"
proof -
  have run: "vectorizing ascii_analyzer sample_cleaned = (Inr sample_combined, sample_cleaned)"
    by code_simp
  show ?thesis
    using run vectorizing_result [OF run] by (intro conjI) assumption+
qed

subsection \<open>The splitting stage\<close>

text \<open>
  C2.  On a table of N rows that has the columns \<open>CLASS\<close> and \<open>CONTENT\<close>, with a held-out
  fraction f whose float lies strictly between 0 and 1 and leaves a training row (the
  float product of f and N, rounded up, is below N), \<open>train_test_splitting\<close> returns
  four collections, and: the training rows and the test rows together are exactly the
  rows of the table (without \<open>CLASS\<close> and \<open>CONTENT\<close>), each row once, and likewise the
  labels; features and labels stay paired by index label; with distinct index labels
  no label is on both sides and the two sides together carry all of them; the two row
  counts add up to N; and the test row count is the float product of f and N rounded
  up to a whole number, which on a table of at most \<open>2^48\<close> rows is the rounding of f
  times N to the nearest whole number or one more.  The library's generator is taken
  to yield permutations of \<open>0..n-1\<close>.
\<close>

theorem split_partitions:
  assumes "\<forall>g n. mset (fst (permutation gen g n)) = mset [0 ..< n]"
    and "''CLASS'' \<in> set (columns data)" and "''CONTENT'' \<in> set (columns data)"
    and "0 < double f" and "double f < 1"
    and "\<lceil>double (double f * double (of_nat (length (rows data))))\<rceil> < int (length (rows data))"
  shows "\<exists>x labels x_train x_test y_train y_test.
           train_test_splitting gen global data (Fraction f)
             = (Inr (x_train, x_test, y_train, y_test), global)
         \<and> drop_each [''CLASS'', ''CONTENT''] data = Inr x \<and> getitem data ''CLASS'' = Inr labels
         \<and> mset (rows x_train) + mset (rows x_test) = mset (rows x)
         \<and> mset y_train + mset y_test = mset (zip (index data) labels)
         \<and> index x_train = map fst y_train \<and> index x_test = map fst y_test
         \<and> length (rows x_train) + length (rows x_test) = length (rows data)
         \<and> 0 < length (rows x_train)
         \<and> (distinct (index data) \<longrightarrow>
               set (index x_train) \<inter> set (index x_test) = {}
             \<and> set (index x_train) \<union> set (index x_test) = set (index data))
         \<and> int (length (rows x_test)) = \<lceil>double (double f * double (of_nat (length (rows data))))\<rceil>
         \<and> (length (rows data) \<le> 2 ^ 48 \<longrightarrow>
               int (length (rows x_test)) - round (f * of_nat (length (rows data))) \<in> {0, 1})"
proof -
  let ?N = "length (rows data)"
  obtain x labels perm k where
    x: "drop_each [''CLASS'', ''CONTENT''] data = Inr x" and labels: "getitem data ''CLASS'' = Inr labels"
    and mperm': "mset perm = mset [0 ..< ?N]"
    and k: "int k = \<lceil>double (double f * double (of_nat ?N))\<rceil>"
    and run: "train_test_splitting gen global data (Fraction f)
       = (Inr (x\<lparr>rows := map ((!) (rows x)) (drop k perm)\<rparr>, x\<lparr>rows := map ((!) (rows x)) (take k perm)\<rparr>,
               map ((!) (zip (index data) labels)) (drop k perm),
               map ((!) (zip (index data) labels)) (take k perm)), global)"
    by (rule train_test_splitting_run [OF assms, of global])
  let ?y = "zip (index data) labels"
  let ?n = "length (rows x)"
  let ?train = "drop k perm"
  let ?test = "take k perm"
  define x_train where "x_train = x\<lparr>rows := map ((!) (rows x)) ?train\<rparr>"
  define x_test where "x_test = x\<lparr>rows := map ((!) (rows x)) ?test\<rparr>"
  define y_train where "y_train = map ((!) ?y) ?train"
  define y_test where "y_test = map ((!) ?y) ?test"
  note xtr = x_train_def and xte = x_test_def and ytr = y_train_def and yte = y_test_def
  have ix: "index x = index data"
    by (rule drop_each_index [OF x])
  have n: "?n = ?N"
    using ix length_index [of x] length_index [of data] by simp
  have lenl: "length labels = ?N"
    by (rule getitem_length [OF labels])
  have leny: "length ?y = ?n"
    by (simp add: lenl length_index n)
  have mperm: "mset perm = mset [0 ..< ?n]"
    using mperm' by (simp add: n)
  have lperm: "length perm = ?n"
    using mperm mset_eq_length by fastforce
  have kn: "k < ?N"
    using k assms(6) by simp
  have range: "list_all (\<lambda>i. i < ?n) ?test" "list_all (\<lambda>i. i < ?n) ?train"
    using permutation_in_range [OF mperm] by simp_all
  have rows: "mset (rows x_train) + mset (rows x_test) = mset (rows x)"
    using split_partition [OF mperm] by (simp add: xtr xte)
  have ys: "mset y_train + mset y_test = mset ?y"
    using split_partition [of perm ?y k] mperm leny by (simp add: ytr yte)
  have itr: "index x_train = map ((!) (index data)) ?train"
    using map_nth_positions [OF range(2), of fst] by (simp add: xtr index_def ix [unfolded index_def])
  have ite: "index x_test = map ((!) (index data)) ?test"
    using map_nth_positions [OF range(1), of fst] by (simp add: xte index_def ix [unfolded index_def])
  have leni: "length (index data) = length labels"
    by (simp add: lenl length_index)
  have ftr: "map fst y_train = map ((!) (index data)) ?train"
    unfolding ytr using range(2) by (intro map_fst_nth_zip [OF leni]) (simp add: n length_index)
  have fte: "map fst y_test = map ((!) (index data)) ?test"
    unfolding yte using range(1) by (intro map_fst_nth_zip [OF leni]) (simp add: n length_index)
  have counts: "length (rows x_train) = ?N - k" "length (rows x_test) = k"
    using kn lperm n by (simp_all add: xtr xte)
  have imset: "mset (index x_train @ index x_test) = mset (index data)"
    using arg_cong [OF rows, of "image_mset fst"] by (simp add: index_def ix [unfolded index_def, symmetric])
  have disjoint: "distinct (index data) \<longrightarrow>
        set (index x_train) \<inter> set (index x_test) = {}
      \<and> set (index x_train) \<union> set (index x_test) = set (index data)"
  proof
    assume "distinct (index data)"
    then have "distinct (index x_train @ index x_test)"
      using mset_eq_imp_distinct_iff [OF imset] by simp
    then show "set (index x_train) \<inter> set (index x_test) = {}
      \<and> set (index x_train) \<union> set (index x_test) = set (index data)"
      using mset_eq_setD [OF imset] by auto
  qed
  have size: "int (length (rows x_test)) = \<lceil>double (double f * double (of_nat ?N))\<rceil>"
    using k by (simp add: counts(2))
  have f: "0 \<le> f"
    using assms(4) by (simp add: double_positive_iff)
  have near: "?N \<le> 2 ^ 48 \<longrightarrow> int (length (rows x_test)) - round (f * of_nat ?N) \<in> {0, 1}"
    using float_ceiling_near_round [OF f assms(5)] by (simp only: size) blast
  have sum: "length (rows x_train) + length (rows x_test) = ?N"
    using kn by (simp add: counts)
  have some: "0 < length (rows x_train)"
    using kn by (simp add: counts)
  have paired: "index x_train = map fst y_train" "index x_test = map fst y_test"
    by (simp_all add: itr ite ftr fte)
  have run': "train_test_splitting gen global data (Fraction f)
             = (Inr (x_train, x_test, y_train, y_test), global)"
    using run by (simp only: xtr xte ytr yte)
  have "train_test_splitting gen global data (Fraction f)
             = (Inr (x_train, x_test, y_train, y_test), global)
         \<and> drop_each [''CLASS'', ''CONTENT''] data = Inr x \<and> getitem data ''CLASS'' = Inr labels
         \<and> mset (rows x_train) + mset (rows x_test) = mset (rows x)
         \<and> mset y_train + mset y_test = mset (zip (index data) labels)
         \<and> index x_train = map fst y_train \<and> index x_test = map fst y_test
         \<and> length (rows x_train) + length (rows x_test) = length (rows data)
         \<and> 0 < length (rows x_train)
         \<and> (distinct (index data) \<longrightarrow>
               set (index x_train) \<inter> set (index x_test) = {}
             \<and> set (index x_train) \<union> set (index x_test) = set (index data))
         \<and> int (length (rows x_test)) = \<lceil>double (double f * double (of_nat (length (rows data))))\<rceil>
         \<and> (length (rows data) \<le> 2 ^ 48 \<longrightarrow>
               int (length (rows x_test)) - round (f * of_nat (length (rows data))) \<in> {0, 1})"
    using run' x labels rows ys paired sum some disjoint size near by (intro conjI) assumption+
  then show ?thesis
    by (intro exI)
qed

theorem split_partitions_witness:
  "(\<forall>g n. mset (fst (permutation rotating g n)) = mset [0 ..< n])
   \<and> ''CLASS'' \<in> set (columns sample_combined) \<and> ''CONTENT'' \<in> set (columns sample_combined)
   \<and> 0 < double (3 / 10) \<and> double (3 / 10) < 1
   \<and> \<lceil>double (double (3 / 10) * double (of_nat (length (rows sample_combined))))\<rceil>
       < int (length (rows sample_combined))
   \<and> train_test_splitting rotating 7 sample_combined default_test_size
       = (Inr (sample_x_train, sample_x_test, sample_y_train, sample_y_test_series), 7)
   \<and> (\<exists>x labels x_train x_test y_train y_test.
           train_test_splitting rotating 7 sample_combined (Fraction (3 / 10))
             = (Inr (x_train, x_test, y_train, y_test), 7)
         \<and> drop_each [''CLASS'', ''CONTENT''] sample_combined = Inr x
         \<and> getitem sample_combined ''CLASS'' = Inr labels
         \<and> mset (rows x_train) + mset (rows x_test) = mset (rows x)
         \<and> mset y_train + mset y_test = mset (zip (index sample_combined) labels)
         \<and> index x_train = map fst y_train \<and> index x_test = map fst y_test
         \<and> length (rows x_train) + length (rows x_test) = length (rows sample_combined)
         \<and> 0 < length (rows x_train)
         \<and> (distinct (index sample_combined) \<longrightarrow>
               set (index x_train) \<inter> set (index x_test) = {}
             \<and> set (index x_train) \<union> set (index x_test) = set (index sample_combined))
         \<and> int (length (rows x_test))
             = \<lceil>double (double (3 / 10) * double (of_nat (length (rows sample_combined))))\<rceil>
         \<and> (length (rows sample_combined) \<le> 2 ^ 48 \<longrightarrow>
               int (length (rows x_test)) - round (3 / 10 * rat_of_nat (length (rows sample_combined)))
                 \<in> {0, 1}))"
proof -
  have gen: "\<forall>g n. mset (fst (permutation rotating g n)) = mset [0 ..< n]"
    by (rule rotating_permutes)
  have c1: "''CLASS'' \<in> set (columns sample_combined)"
    by code_simp
  have c2: "''CONTENT'' \<in> set (columns sample_combined)"
    by code_simp
  have v1: "0 < double (3 / 10)"
    by code_simp
  have v2: "double (3 / 10) < 1"
    by code_simp
  have room: "\<lceil>double (double (3 / 10) * double (of_nat (length (rows sample_combined))))\<rceil>
       < int (length (rows sample_combined))"
    by code_simp
  have run: "train_test_splitting rotating 7 sample_combined default_test_size
       = (Inr (sample_x_train, sample_x_test, sample_y_train, sample_y_test_series), 7)"
    by code_simp
  show ?thesis
    using gen c1 c2 v1 v2 room run split_partitions [OF gen c1 c2 v1 v2 room, of 7]
    by (intro conjI) assumption+
qed

text \<open>
  C6.  The outcome of \<open>train_test_splitting\<close> on a table and a held-out size does not
  depend on the state in which the call finds the process-wide generator, and the call
  leaves that state as it found it: the permutation comes from a generator made from
  the seed 42 alone.  So two runs on the same table, in the same row order, with the
  same held-out fraction return the same four collections.
\<close>

theorem split_is_reproducible:
  "fst (train_test_splitting gen g1 data test_size) = fst (train_test_splitting gen g2 data test_size)
   \<and> snd (train_test_splitting gen g1 data test_size) = g1"
  by (auto simp: train_test_splitting_def train_test_split_def shuffled_def Let_def case_prod_unfold
      split: sum.splits prod.splits)

subsection \<open>The evaluation stage\<close>

text \<open>
  With both classes among the labels the figure shows the 2 by 2 matrix of the counts,
  rows by true label and columns by predicted label, label 0 (spam) before label 1
  (non-spam); its cells add up to the number of test rows, each row to the number of
  true instances of its class and each column to the number of predictions of its class.
\<close>

lemma confusion_matrix_two_classes:
  assumes "length y_pred = length y_test" and "set y_test \<union> set y_pred = {0, 1}"
  shows "\<exists>a b c d.
           confusion_matrix y_pred y_test
             = Inr \<lparr>shown_matrix = [[a, b], [c, d]], tick_labels = [''SPAM'', ''NON-SPAM'']\<rparr>
         \<and> a = count_list (zip y_test y_pred) (0, 0) \<and> b = count_list (zip y_test y_pred) (0, 1)
         \<and> c = count_list (zip y_test y_pred) (1, 0) \<and> d = count_list (zip y_test y_pred) (1, 1)
         \<and> a + b + c + d = length y_test
         \<and> a + b = count_list y_test 0 \<and> c + d = count_list y_test 1
         \<and> a + c = count_list y_pred 0 \<and> b + d = count_list y_pred 1"
proof -
  let ?n = "\<lambda>t p. count_list (zip y_test y_pred) (t, p)"
  have sub: "set y_test \<subseteq> {0, 1}" "set y_pred \<subseteq> {0, 1}"
    using assms(2) by auto
  have len: "length y_test = length y_pred"
    using assms(1) by simp
  have "confusion_matrix y_pred y_test
          = Inr \<lparr>shown_matrix = [[?n 0 0, ?n 0 1], [?n 1 0, ?n 1 1]],
                  tick_labels = [''SPAM'', ''NON-SPAM'']\<rparr>"
    using assms
    by (simp add: confusion_matrix_def c_m_def plot_def display_names_def unique_labels_def classes_two)
  moreover have r0: "?n 0 0 + ?n 0 1 = count_list y_test 0" and r1: "?n 1 0 + ?n 1 1 = count_list y_test 1"
    using count_pairs_row [OF len sub(2)] by simp_all
  moreover have "?n 0 0 + ?n 1 0 = count_list y_pred 0" and "?n 0 1 + ?n 1 1 = count_list y_pred 1"
    using count_pairs_column [OF len sub(1)] by simp_all
  moreover have "?n 0 0 + ?n 0 1 + ?n 1 0 + ?n 1 1 = length y_test"
    using r0 r1 count_two_labels [OF sub(1)] by simp
  ultimately show ?thesis by blast
qed

text \<open>
  C8.  The confusion matrix is not 2 by 2 for every pair of equal-length label
  collections over the two classes.  With two test rows, both spam and both predicted
  spam, the only label that occurs is 0: the matrix that \<open>confusion_matrix\<close> computes is
  the single cell 2, and drawing it with the two display labels raises.
\<close>

theorem confusion_matrix_one_class_raises:
  "length [0, 0 :: int] = length [0, 0 :: int]
   \<and> set [0, 0 :: int] \<subseteq> {0, 1}
   \<and> c_m [0, 0] [0, 0] = Inr [[2]]
   \<and> confusion_matrix [0, 0] [0, 0] = Inl ValueError"
  by code_simp

text \<open>
  C10.  For predicted and true labels of equal length over the two classes, on a test
  set that is not empty, \<open>model_evaluation_scores\<close> returns the accuracy as the fraction
  of positions where prediction and true label are equal, and precision, recall and F1
  with label 1 as the positive class: true positives are the positions where both are
  1, predicted positives those predicted 1, actual positives those whose true label is
  1.  Where both labels occur, label 1 is the one the displays name \<open>NON-SPAM\<close> and
  label 0 the one they name \<open>SPAM\<close>.
\<close>

theorem evaluation_scores_positive_class:
  assumes "length y_pred = length y_test" and "y_test \<noteq> []"
    and "set y_test \<union> set y_pred \<subseteq> {0, 1}"
  shows "model_evaluation_scores y_pred y_test =
           (let n = length y_test;
                matching = tally n (\<lambda>k. y_pred ! k = y_test ! k);
                true_positives = tally n (\<lambda>k. y_test ! k = 1 \<and> y_pred ! k = 1);
                predicted_positives = tally n (\<lambda>k. y_pred ! k = 1);
                actual_positives = tally n (\<lambda>k. y_test ! k = 1)
            in Inr (Score (ratio matching n),
                    Score (if predicted_positives = 0 then 0
                           else ratio true_positives predicted_positives),
                    Score (if actual_positives = 0 then 0
                           else ratio true_positives actual_positives),
                    Score (if actual_positives + predicted_positives = 0 then 0
                           else ratio (2 * true_positives) (actual_positives + predicted_positives))))
       \<and> (set y_test \<union> set y_pred = {0, 1} \<longrightarrow>
            display_name y_test y_pred 1 = Some ''NON-SPAM'' \<and> display_name y_test y_pred 0 = Some ''SPAM'')"
proof -
  have len: "length y_test = length y_pred"
    using assms(1) by simp
  have "card (set (y_test @ y_pred)) \<le> card {0, 1 :: int}"
    using assms(3) by (intro card_mono) auto
  then have few: "length (unique_labels y_test y_pred) \<le> 2"
    by (simp add: unique_labels_def classes_length)
  have one: "1 \<in> set (unique_labels y_test y_pred)" if "length (unique_labels y_test y_pred) \<ge> 2"
  proof -
    have "card (set (y_test @ y_pred)) = 2"
      using that few by (simp add: unique_labels_def classes_length)
    moreover have "set (y_test @ y_pred) \<subseteq> {0, 1}"
      using assms(3) by simp
    ultimately have "set (y_test @ y_pred) = {0, 1}"
      by (intro card_subset_eq) auto
    then show ?thesis
      by (simp add: unique_labels_def classes_sorted_distinct(3) del: set_append)
  qed
  have triple: "precision_recall_fscore_support 1 y_test y_pred =
      Inr (Score (prf_divide (count_list (zip y_test y_pred) (1, 1)) (count_list y_pred 1)),
           Score (prf_divide (count_list (zip y_test y_pred) (1, 1)) (count_list y_test 1)),
           Score (prf_divide (2 * count_list (zip y_test y_pred) (1, 1))
                    (count_list y_test 1 + count_list y_pred 1)))"
    using len few one by (auto simp: precision_recall_fscore_support_def Let_def)
  have acc: "accuracy_score y_test y_pred =
      Inr (Score (ratio (tally (length y_test) (\<lambda>k. y_pred ! k = y_test ! k)) (length y_test)))"
    using len assms(2) by (simp add: accuracy_score_def matches_tally ratio_def)
  have tp: "count_list (zip y_test y_pred) (1, 1)
              = tally (length y_test) (\<lambda>k. y_test ! k = 1 \<and> y_pred ! k = 1)"
    by (rule count_zip_tally [OF len])
  have pp: "count_list y_pred 1 = tally (length y_test) (\<lambda>k. y_pred ! k = 1)"
    by (simp add: count_list_tally len)
  have ap: "count_list y_test 1 = tally (length y_test) (\<lambda>k. y_test ! k = 1)"
    by (rule count_list_tally)
  have scores: "model_evaluation_scores y_pred y_test =
           (let n = length y_test;
                matching = tally n (\<lambda>k. y_pred ! k = y_test ! k);
                true_positives = tally n (\<lambda>k. y_test ! k = 1 \<and> y_pred ! k = 1);
                predicted_positives = tally n (\<lambda>k. y_pred ! k = 1);
                actual_positives = tally n (\<lambda>k. y_test ! k = 1)
            in Inr (Score (ratio matching n),
                    Score (if predicted_positives = 0 then 0
                           else ratio true_positives predicted_positives),
                    Score (if actual_positives = 0 then 0
                           else ratio true_positives actual_positives),
                    Score (if actual_positives + predicted_positives = 0 then 0
                           else ratio (2 * true_positives) (actual_positives + predicted_positives))))"
    unfolding model_evaluation_scores_def precision_score_def recall_score_def f1_score_def
    by (simp add: acc triple tp pp ap Let_def prf_divide_def ratio_def)
  have names: "display_name y_test y_pred 1 = Some ''NON-SPAM'' \<and> display_name y_test y_pred 0 = Some ''SPAM''"
    if "set y_test \<union> set y_pred = {0, 1}"
    using that by (simp add: display_name_def display_names_def unique_labels_def classes_two Let_def)
  show ?thesis
    using scores names by blast
qed

theorem evaluation_scores_positive_class_witness:
  "length sample_y_pred = length sample_y_test \<and> sample_y_test \<noteq> []
   \<and> set sample_y_test \<union> set sample_y_pred = {0, 1}
   \<and> model_evaluation_scores sample_y_pred sample_y_test =
           (let n = length sample_y_test;
                matching = tally n (\<lambda>k. sample_y_pred ! k = sample_y_test ! k);
                true_positives = tally n (\<lambda>k. sample_y_test ! k = 1 \<and> sample_y_pred ! k = 1);
                predicted_positives = tally n (\<lambda>k. sample_y_pred ! k = 1);
                actual_positives = tally n (\<lambda>k. sample_y_test ! k = 1)
            in Inr (Score (ratio matching n),
                    Score (if predicted_positives = 0 then 0
                           else ratio true_positives predicted_positives),
                    Score (if actual_positives = 0 then 0
                           else ratio true_positives actual_positives),
                    Score (if actual_positives + predicted_positives = 0 then 0
                           else ratio (2 * true_positives) (actual_positives + predicted_positives))))
   \<and> display_name sample_y_test sample_y_pred 1 = Some ''NON-SPAM''
   \<and> display_name sample_y_test sample_y_pred 0 = Some ''SPAM''"
proof -
  have len: "length sample_y_pred = length sample_y_test"
    by (simp add: sample_y_pred_def sample_y_test_def)
  have ne: "sample_y_test \<noteq> []"
    by (simp add: sample_y_test_def)
  have both: "set sample_y_test \<union> set sample_y_pred = {0, 1}"
    by (auto simp: sample_y_pred_def sample_y_test_def)
  then have sub: "set sample_y_test \<union> set sample_y_pred \<subseteq> {0, 1}"
    by simp
  show ?thesis
    using len ne both evaluation_scores_positive_class [OF len ne sub] by blast
qed

subsection \<open>Effects on the caller's table\<close>



end
